theory Spec2Isabelle
  imports Main "HOL-Library.Sublist"
begin

section \<open>The crawler of crawler_by_id.py\<close>

text \<open>
  The module has three functions: \<open>crawl_and_extract_data\<close> (one page),
  \<open>crawl_kensetsu_databank_range\<close> (the range loop over a thread pool) and
  \<open>append_or_create_excel\<close> (the spreadsheet file). They are embedded below in
  this order of dependency: the page fetcher, the spreadsheet sink, the range crawler.

  What the module takes from its libraries is part of the environment of a run:
  the answer of the web server to each GET, the moment at which each submitted task
  completes, and whether a given attempt to write the output file succeeds.
\<close>

subsection \<open>Constants\<close>

definition BASE_URL :: string where
  "BASE_URL = ''https://www.kensetsu-databank.co.jp/osirase/detail.php?id=''"

definition TABLE_CLASS :: string where
  "TABLE_CLASS = ''san-two''"

definition LINK_COLUMN :: string where
  "LINK_COLUMN = ''link''"

subsection \<open>Exceptions\<close>

text \<open>
  The exceptions a run can meet. \<open>ConnectionError\<close>, \<open>Timeout\<close> and \<open>HTTPError\<close> are
  the subclasses of \<open>requests.exceptions.RequestException\<close> that matter here; the others
  are built-in exceptions outside that family.
\<close>

datatype exn =
    RequestException | ConnectionError | Timeout | HTTPError
  | ValueError | KeyError | OSError | ZeroDivisionError | RuntimeError

fun is_RequestException :: "exn \<Rightarrow> bool" where
  "is_RequestException RequestException = True"
| "is_RequestException ConnectionError = True"
| "is_RequestException Timeout = True"
| "is_RequestException HTTPError = True"
| "is_RequestException _ = False"

subsection \<open>Strings\<close>

text \<open>
  \<open>str.strip()\<close> without argument removes leading and trailing whitespace. The
  characters below are the ASCII ones for which \<open>str.isspace\<close> holds (tab, line feed,
  vertical tab, form feed, carriage return, the four separators 28 to 31, space).
\<close>

definition isspace :: "char \<Rightarrow> bool" where
  "isspace c = (of_char c \<in> {9, 10, 11, 12, 13, 28, 29, 30, 31, 32 :: nat})"

definition lstrip :: "string \<Rightarrow> string" where
  "lstrip s = dropWhile isspace s"

definition rstrip :: "string \<Rightarrow> string" where
  "rstrip s = rev (dropWhile isspace (rev s))"

definition strip :: "string \<Rightarrow> string" where
  "strip s = rstrip (lstrip s)"

text \<open>\<open>str(n)\<close> of an integer: decimal digits, with a minus sign when negative.\<close>

definition digit :: "nat \<Rightarrow> char" where
  "digit d = char_of (48 + d)"

function str_nat :: "nat \<Rightarrow> string" where
  "str_nat n = (if n < 10 then [digit n] else str_nat (n div 10) @ [digit (n mod 10)])"
  by pat_completeness auto
termination
  by (relation "measure (\<lambda>n. n)") auto

declare str_nat.simps [simp del]

definition str :: "int \<Rightarrow> string" where
  "str n = (if n < 0 then CHR ''-'' # str_nat (nat (- n)) else str_nat (nat n))"

subsection \<open>Dictionaries\<close>

text \<open>
  A Python \<open>dict\<close> of strings keeps its keys in insertion order and holds each key
  once: an association list with distinct keys. \<open>d[k] = v\<close> replaces the value of a key
  that is present, in place, and appends a new key at the end.
\<close>

type_synonym Record = "(string \<times> string) list"

fun setitem :: "Record \<Rightarrow> string \<Rightarrow> string \<Rightarrow> Record" where
  "setitem [] k v = [(k, v)]"
| "setitem ((k', v') # d) k v = (if k' = k then (k, v) # d else (k', v') # setitem d k v)"

definition keys :: "Record \<Rightarrow> string list" where
  "keys d = map fst d"

subsection \<open>The parsed page\<close>

text \<open>
  \<open>BeautifulSoup(response.content, 'html.parser')\<close> gives a tree of tags and text
  nodes. A tag has a name, the list of its classes and its children. The three
  operations the fetcher uses are \<open>find_all\<close> (all descendant tags of a name, in
  document order), \<open>find\<close> (the first of them, with an optional class to match) and
  \<open>.text\<close> (all text below a tag, concatenated).
\<close>

datatype node = NavigableString string | Tag string "string list" "node list"

fun descendants :: "node \<Rightarrow> node list" where
  "descendants (NavigableString s) = []"
| "descendants (Tag name classes children) =
     concat (map (\<lambda>c. c # descendants c) children)"

fun is_tag :: "string \<Rightarrow> node \<Rightarrow> bool" where
  "is_tag name (NavigableString s) = False"
| "is_tag name (Tag name' classes children) = (name' = name)"

fun has_class :: "string \<Rightarrow> node \<Rightarrow> bool" where
  "has_class c (NavigableString s) = False"
| "has_class c (Tag name classes children) = (c \<in> set classes)"

definition find_all :: "node \<Rightarrow> string \<Rightarrow> node list" where
  "find_all n name = filter (is_tag name) (descendants n)"

definition find :: "node \<Rightarrow> string \<Rightarrow> node option" where
  "find n name = List.find (is_tag name) (descendants n)"

definition find_class :: "node \<Rightarrow> string \<Rightarrow> string \<Rightarrow> node option" where
  "find_class n name c = List.find (\<lambda>x. is_tag name x \<and> has_class c x) (descendants n)"

fun text_of :: "node \<Rightarrow> string" where
  "text_of (NavigableString s) = s"
| "text_of (Tag name classes children) = concat (map text_of children)"

definition BeautifulSoup :: "node list \<Rightarrow> node" where
  "BeautifulSoup content = Tag ''[document]'' [] content"

subsection \<open>The HTTP client\<close>

text \<open>
  A response carries its status code and its body; the body is given as the forest the
  HTML parser makes of it. \<open>raise_for_status\<close> raises \<open>HTTPError\<close> for the client and
  server error codes, 400 to 599, and nothing otherwise.
\<close>

record response =
  status_code :: nat
  content :: "node list"

definition raise_for_status :: "response \<Rightarrow> exn + unit" where
  "raise_for_status r =
     (if 400 \<le> status_code r \<and> status_code r < 600 then Inl HTTPError else Inr ())"

text \<open>
  The environment of a run: \<open>requests_get\<close> is the outcome of \<open>requests.get\<close> on each
  URL (an exception or a response), \<open>completes_at\<close> the time at which the task
  submitted at a position of the futures list completes, \<open>write_fails\<close> whether the
  write of the output file fails in a given call of the sink (calls counted from 0).
\<close>

record env =
  requests_get :: "string \<Rightarrow> exn + response"
  completes_at :: "nat \<Rightarrow> nat"
  write_fails :: "nat \<Rightarrow> bool"

subsection \<open>crawl_and_extract_data\<close>

text \<open>
  One turn of the loop over the rows, lines 40 to 45: a row with both a \<open>th\<close> and a
  \<open>td\<close> below it sets the stripped header text to the stripped data text. A tag object
  is always true, so \<open>if th and td\<close> tests that both were found.
\<close>

definition extract_row :: "node \<Rightarrow> Record \<Rightarrow> Record" where
  "extract_row row data =
     (case (find row ''th'', find row ''td'') of
        (Some th, Some td) \<Rightarrow> setitem data (strip (text_of th)) (strip (text_of td))
      | _ \<Rightarrow> data)"

text \<open>Lines 31 to 51, the part of the \<open>try\<close> block after the status check.\<close>

definition extract_table :: "node \<Rightarrow> Record" where
  "extract_table soup =
     (case find_class soup ''table'' TABLE_CLASS of
        None \<Rightarrow> []
      | Some table \<Rightarrow> fold extract_row (find_all table ''tr'') [])"

definition extract_data :: "string \<Rightarrow> response \<Rightarrow> Record" where
  "extract_data url r =
     (let soup = BeautifulSoup (content r);
          data = extract_table soup
      in if data \<noteq> [] then setitem data LINK_COLUMN url else data)"

text \<open>
  The whole function. The result is \<open>Inl e\<close> when exception \<open>e\<close> leaves the function,
  \<open>Inr None\<close> when it returns \<open>None\<close> and \<open>Inr (Some d)\<close> when it returns the dictionary
  \<open>d\<close>. The handler of line 53 catches the exceptions of the \<open>RequestException\<close> family
  only; another exception of \<open>requests.get\<close> leaves the function. The function runs in
  a worker thread; the line its handler prints is not part of the world below.
\<close>

definition crawl_and_extract_data :: "env \<Rightarrow> string \<Rightarrow> exn + Record option" where
  "crawl_and_extract_data E url =
     (case requests_get E url of
        Inl e \<Rightarrow> if is_RequestException e then Inr None else Inl e
      | Inr r \<Rightarrow>
          (case raise_for_status r of
             Inl e \<Rightarrow> if is_RequestException e then Inr None else Inl e
           | Inr _ \<Rightarrow> Inr (Some (extract_data url r))))"

subsection \<open>The table library\<close>

text \<open>
  The sink works on pandas data frames. A frame is a list of column names and a list
  of rows, each row holding one cell per column; a cell is a string or missing (NaN).
  The operations below are the ones \<open>append_or_create_excel\<close> calls, with the
  behaviour of the library: \<open>DataFrame(data)\<close> takes the columns from the keys of the
  dictionaries in first-seen order, \<open>concat\<close> puts the rows of the second frame after
  those of the first over the union of the columns, and
  \<open>drop_duplicates(subset=[c], keep="last")\<close> keeps of the rows that agree on column
  \<open>c\<close> the last one. The latter returns an empty frame (no rows, or no columns) as it
  is, and raises \<open>KeyError\<close> when a frame that is not empty lacks the column.
\<close>

type_synonym cell = "string option"

record dataframe =
  columns :: "string list"
  rows :: "cell list list"

definition add_new :: "'a list \<Rightarrow> 'a \<Rightarrow> 'a list" where
  "add_new acc k = (if k \<in> set acc then acc else acc @ [k])"

definition DataFrame :: "Record list \<Rightarrow> dataframe" where
  "DataFrame data =
     (let cols = foldl add_new [] (concat (map keys data))
      in \<lparr>columns = cols, rows = map (\<lambda>d. map (map_of d) cols) data\<rparr>)"

definition cell_at :: "string list \<Rightarrow> cell list \<Rightarrow> string \<Rightarrow> cell" where
  "cell_at cols row c = (case map_of (zip cols row) c of None \<Rightarrow> None | Some v \<Rightarrow> v)"

definition reindex :: "string list \<Rightarrow> string list \<Rightarrow> cell list \<Rightarrow> cell list" where
  "reindex old new row = map (cell_at old row) new"

definition concat_frames :: "dataframe \<Rightarrow> dataframe \<Rightarrow> dataframe" where
  "concat_frames a b =
     (let cols = foldl add_new (columns a) (columns b)
      in \<lparr>columns = cols,
          rows = map (reindex (columns a) cols) (rows a) @
                 map (reindex (columns b) cols) (rows b)\<rparr>)"

fun keep_last :: "('a \<Rightarrow> 'b) \<Rightarrow> 'a list \<Rightarrow> 'a list" where
  "keep_last key [] = []"
| "keep_last key (r # rs) =
     (if key r \<in> key ` set rs then keep_last key rs else r # keep_last key rs)"

definition empty_frame :: "dataframe \<Rightarrow> bool" where
  "empty_frame df = (rows df = [] \<or> columns df = [])"

definition drop_duplicates :: "dataframe \<Rightarrow> string \<Rightarrow> exn + dataframe" where
  "drop_duplicates df c =
     (if empty_frame df then Inr df
      else if c \<notin> set (columns df) then Inl KeyError
      else Inr (df\<lparr>rows := keep_last (\<lambda>row. cell_at (columns df) row c) (rows df)\<rparr>))"

subsection \<open>The world of a run\<close>

text \<open>
  What a run changes outside its own variables: the output file (absent, or the frame
  it holds: reading the file gives back the frame that was written), the standard
  output, and the clock. \<open>calls\<close> records the batch passed to each call of
  \<open>append_or_create_excel\<close>, in order, the way a test double would.
\<close>

datatype line =
    DataAppended
  | DataExported
  | ErrorInThread exn
  | Crawled nat int string nat
  | Newline

record world =
  disk :: "dataframe option"
  stdout :: "line list"
  clock :: nat
  calls :: "Record list list"

definition print :: "line \<Rightarrow> world \<Rightarrow> world" where
  "print l w = w\<lparr>stdout := stdout w @ [l]\<rparr>"

text \<open>
  \<open>df.to_excel(EXCEL_FILE, index=False)\<close> in the call of the sink numbered \<open>k\<close>: the
  write fails with \<open>OSError\<close> and leaves the file as it was, or replaces the file.
\<close>

definition to_excel :: "env \<Rightarrow> nat \<Rightarrow> dataframe \<Rightarrow> world \<Rightarrow> (exn + unit) \<times> world" where
  "to_excel E k df w =
     (if write_fails E k then (Inl OSError, w) else (Inr (), w\<lparr>disk := Some df\<rparr>))"

subsection \<open>append_or_create_excel\<close>

text \<open>
  Lines 123 to 135. The merge branch is taken when \<open>append_to_existing\<close> is true and
  the file exists; an exception of \<open>drop_duplicates\<close> or of the write leaves the
  function before the line is printed.
\<close>

definition append_or_create_excel ::
  "env \<Rightarrow> Record list \<Rightarrow> bool \<Rightarrow> world \<Rightarrow> (exn + unit) \<times> world" where
  "append_or_create_excel E data append_to_existing w =
     (let k = length (calls w);
          w0 = w\<lparr>calls := calls w @ [data]\<rparr>
      in case (if append_to_existing then disk w0 else None) of
           Some existing_df \<Rightarrow>
             (let new_df = DataFrame data;
                  combined_df = concat_frames existing_df new_df
              in case drop_duplicates combined_df LINK_COLUMN of
                   Inl e \<Rightarrow> (Inl e, w0)
                 | Inr combined_df' \<Rightarrow>
                     (case to_excel E k combined_df' w0 of
                        (Inl e, w1) \<Rightarrow> (Inl e, w1)
                      | (Inr _, w1) \<Rightarrow> (Inr (), print DataAppended w1)))
         | None \<Rightarrow>
             (let df = DataFrame data
              in case to_excel E k df w0 of
                   (Inl e, w1) \<Rightarrow> (Inl e, w1)
                 | (Inr _, w1) \<Rightarrow> (Inr (), print DataExported w1)))"

subsection \<open>crawl_kensetsu_databank_range\<close>

text \<open>
  A future is the task submitted at one position: the time at which it completes and
  what \<open>future.result()\<close> then gives, the value \<open>crawl_and_extract_data\<close> returned or
  the exception it raised. \<open>result\<close> blocks until the task has completed.
\<close>

record future =
  done_at :: nat
  outcome :: "exn + Record option"

definition submit :: "env \<Rightarrow> nat \<Rightarrow> string \<Rightarrow> future" where
  "submit E pos url = \<lparr>done_at = completes_at E pos, outcome = crawl_and_extract_data E url\<rparr>"

text \<open>Line 77: one task for each identifier of \<open>range(start_id, end_id + 1)\<close>.\<close>

definition submit_all :: "env \<Rightarrow> int \<Rightarrow> int \<Rightarrow> future list" where
  "submit_all E start_id end_id =
     map (\<lambda>(pos, id). submit E pos (BASE_URL @ str id))
       (enumerate 0 [start_id..end_id])"

definition result :: "future \<Rightarrow> world \<Rightarrow> (exn + Record option) \<times> world" where
  "result f w = (outcome f, w\<lparr>clock := max (clock w) (done_at f)\<rparr>)"

text \<open>The variables of the function that the loop changes.\<close>

record locals =
  all_data :: "Record list"
  error_links :: "string list"

definition batch_size :: nat where
  "batch_size = 32"

text \<open>
  Lines 83 to 86. \<open>None\<close> and the empty dictionary are both false in \<open>if extracted_data\<close>.
\<close>

definition collect :: "int \<Rightarrow> nat \<Rightarrow> Record option \<Rightarrow> locals \<Rightarrow> locals" where
  "collect start_id i extracted_data l =
     (case extracted_data of
        Some d \<Rightarrow>
          if d \<noteq> [] then l\<lparr>all_data := all_data l @ [d]\<rparr>
          else l\<lparr>error_links := error_links l @ [BASE_URL @ str (start_id + int i)]\<rparr>
      | None \<Rightarrow> l\<lparr>error_links := error_links l @ [BASE_URL @ str (start_id + int i)]\<rparr>)"

text \<open>
  Lines 89 to 91. When the call of the sink raises, the assignment \<open>all_data = []\<close> is
  not reached.
\<close>

definition flush_if_full ::
  "env \<Rightarrow> bool \<Rightarrow> locals \<times> world \<Rightarrow> (exn + unit) \<times> locals \<times> world" where
  "flush_if_full E append_to_existing s =
     (case s of (l, w) \<Rightarrow>
        if length (all_data l) \<ge> batch_size then
          (case append_or_create_excel E (all_data l) append_to_existing w of
             (Inl e, w1) \<Rightarrow> (Inl e, l, w1)
           | (Inr _, w1) \<Rightarrow> (Inr (), l\<lparr>all_data := []\<rparr>, w1))
        else (Inr (), l, w))"

text \<open>
  Lines 94 and 95. The quotient \<open>(i+1) / total_ids\<close> raises \<open>ZeroDivisionError\<close> when
  \<open>total_ids\<close> is 0; the rounded percentage itself is not part of the printed line here.
\<close>

definition report_progress ::
  "int \<Rightarrow> int \<Rightarrow> nat \<Rightarrow> locals \<times> world \<Rightarrow> (exn + unit) \<times> locals \<times> world" where
  "report_progress start_id total_ids i s =
     (case s of (l, w) \<Rightarrow>
        if total_ids = 0 then (Inl ZeroDivisionError, l, w)
        else (Inr (), l,
              print (Crawled (i + 1) total_ids (BASE_URL @ str (start_id + int i))
                       (length (all_data l))) w))"

text \<open>The body of the \<open>try\<close> block, lines 82 to 95, for the future at position \<open>i\<close>.\<close>

definition try_body ::
  "env \<Rightarrow> int \<Rightarrow> int \<Rightarrow> bool \<Rightarrow> nat \<Rightarrow> future \<Rightarrow> locals \<times> world
     \<Rightarrow> (exn + unit) \<times> locals \<times> world" where
  "try_body E start_id total_ids append_to_existing i f s =
     (case s of (l, w) \<Rightarrow>
        (case result f w of
           (Inl e, w0) \<Rightarrow> (Inl e, l, w0)
         | (Inr extracted_data, w0) \<Rightarrow>
             (case flush_if_full E append_to_existing
                     (collect start_id i extracted_data l, w0) of
                (Inl e, s1) \<Rightarrow> (Inl e, s1)
              | (Inr _, s1) \<Rightarrow> report_progress start_id total_ids i s1)))"

text \<open>
  One turn of the loop of line 80: the \<open>try\<close> block with its handler of line 106, which
  catches every exception, prints it and lets the loop go on.
\<close>

definition process_future ::
  "env \<Rightarrow> int \<Rightarrow> int \<Rightarrow> bool \<Rightarrow> nat \<Rightarrow> future \<Rightarrow> locals \<times> world \<Rightarrow> locals \<times> world" where
  "process_future E start_id total_ids append_to_existing i f s =
     (case try_body E start_id total_ids append_to_existing i f s of
        (Inl e, l, w) \<Rightarrow> (l, print (ErrorInThread e) w)
      | (Inr _, l, w) \<Rightarrow> (l, w))"

text \<open>The loop \<open>for i, future in enumerate(futures)\<close>, from position \<open>i\<close> on.\<close>

fun crawl_loop ::
  "env \<Rightarrow> int \<Rightarrow> int \<Rightarrow> bool \<Rightarrow> nat \<Rightarrow> future list \<Rightarrow> locals \<times> world \<Rightarrow> locals \<times> world" where
  "crawl_loop E start_id total_ids append_to_existing i [] s = s"
| "crawl_loop E start_id total_ids append_to_existing i (f # fs) s =
     crawl_loop E start_id total_ids append_to_existing (Suc i) fs
       (process_future E start_id total_ids append_to_existing i f s)"

text \<open>
  Lines 68 to 107: the variables as they are initialised, and the \<open>with\<close> block. The
  pool of line 75 is made before anything is submitted.
\<close>

definition initial_locals :: locals where
  "initial_locals = \<lparr>all_data = [], error_links = []\<rparr>"

definition with_executor :: "env \<Rightarrow> int \<Rightarrow> int \<Rightarrow> bool \<Rightarrow> world \<Rightarrow> locals \<times> world" where
  "with_executor E start_id end_id append_to_existing w =
     (let total_ids = end_id - start_id + 1;
          futures = submit_all E start_id end_id
      in crawl_loop E start_id total_ids append_to_existing 0 futures (initial_locals, w))"

text \<open>
  The whole function. \<open>ThreadPoolExecutor(max_workers=num_threads)\<close> raises
  \<open>ValueError\<close> when \<open>num_threads\<close> is not positive. The flush of line 111 is outside
  every \<open>try\<close> block: what it raises leaves the function.
\<close>

definition crawl_kensetsu_databank_range ::
  "env \<Rightarrow> int \<Rightarrow> int \<Rightarrow> bool \<Rightarrow> int \<Rightarrow> world \<Rightarrow> (exn + unit) \<times> world" where
  "crawl_kensetsu_databank_range E start_id end_id append_to_existing num_threads w =
     (if num_threads \<le> 0 then (Inl ValueError, w)
      else
        (case with_executor E start_id end_id append_to_existing w of (l, w1) \<Rightarrow>
           (case (if all_data l \<noteq> []
                  then append_or_create_excel E (all_data l) append_to_existing w1
                  else (Inr (), w1)) of
              (Inl e, w2) \<Rightarrow> (Inl e, w2)
            | (Inr _, w2) \<Rightarrow> (Inr (), print Newline w2))))"

subsection \<open>The rows of a table, as pairs\<close>

text \<open>
  The header and data texts of the rows of a table that have both cells, in document
  order: what the loop of lines 39 to 45 goes through.
\<close>

definition row_pair :: "node \<Rightarrow> (string \<times> string) option" where
  "row_pair row =
     (case (find row ''th'', find row ''td'') of
        (Some th, Some td) \<Rightarrow> Some (strip (text_of th), strip (text_of td))
      | _ \<Rightarrow> None)"

definition table_pairs :: "node \<Rightarrow> (string \<times> string) list" where
  "table_pairs table = List.map_filter row_pair (find_all table ''tr'')"

subsection \<open>The link column of a frame\<close>



definition persisted_table :: "dataframe option \<Rightarrow> bool" where
  "persisted_table f =
     (case f of None \<Rightarrow> True
      | Some df \<Rightarrow> empty_frame df \<or> LINK_COLUMN \<in> set (columns df))"

definition row_of :: "dataframe \<Rightarrow> Record \<Rightarrow> cell list" where
  "row_of df d = map (map_of d) (columns df)"


subsection \<open>The outcomes of the fetches\<close>

text \<open>
  \<open>url_of\<close> is the URL of an identifier. \<open>good_record\<close> is the dictionary the loop
  appends to the batch for an outcome, if any: the outcome must be a dictionary that is
  not empty. \<open>successes\<close> lists these dictionaries for a list of outcomes, in the
  order of the list. \<open>no_record\<close> holds of the outcomes for which the loop adds the URL
  to \<open>error_links\<close>, and \<open>linked\<close> of the outcomes whose dictionary, if one is
  appended, has the key \<open>link\<close>.
\<close>

definition url_of :: "int \<Rightarrow> string" where
  "url_of n = BASE_URL @ str n"

definition good_record :: "exn + Record option \<Rightarrow> Record option" where
  "good_record x =
     (case x of Inr (Some d) \<Rightarrow> if d \<noteq> [] then Some d else None | _ \<Rightarrow> None)"

definition successes :: "(exn + Record option) list \<Rightarrow> Record list" where
  "successes xs = List.map_filter good_record xs"

definition no_record :: "exn + Record option \<Rightarrow> bool" where
  "no_record x = (x = Inr None \<or> x = Inr (Some []))"

definition linked :: "exn + Record option \<Rightarrow> bool" where
  "linked x = (case good_record x of None \<Rightarrow> True | Some d \<Rightarrow> LINK_COLUMN \<in> set (keys d))"

text \<open>
  The batches of the calls of the sink from call \<open>n0\<close> on have at least the batch
  size, and the batch of a call whose write fails is a prefix of the batch of the next
  call or, when there is none yet, of \<open>all_data\<close>.
\<close>

definition retained :: "env \<Rightarrow> nat \<Rightarrow> locals \<times> world \<Rightarrow> bool" where
  "retained E n0 st =
     (case st of (l, w) \<Rightarrow>
        \<forall>k. n0 \<le> k \<and> k < length (calls w) \<longrightarrow>
          batch_size \<le> length (calls w ! k) \<and>
          (write_fails E k \<longrightarrow>
             prefix (calls w ! k)
               (if Suc k < length (calls w) then calls w ! Suc k else all_data l)))"
subsection \<open>Example pages and environments\<close>

text \<open>
  \<open>sample_page\<close> is the page of the module's own test: a title, and a table of class
  \<open>san-two\<close> with two rows (here with some whitespace around the second header and
  value). \<open>link_table\<close> has a row whose header is \<open>link\<close>; the page of
  \<open>blank_env\<close> has no table; \<open>refusing_env\<close> refuses every connection and
  \<open>not_found_env\<close> answers 404.
\<close>

definition th_td :: "string \<Rightarrow> string \<Rightarrow> node" where
  "th_td h d = Tag ''tr'' [] [Tag ''th'' [] [NavigableString h], Tag ''td'' [] [NavigableString d]]"

definition sample_table :: node where
  "sample_table =
     Tag ''table'' [''san-two'']
       [th_td ''Key 1'' ''Value 1'', NavigableString [CHR 10], th_td '' Key 2'' ''Value 2 '']"

definition sample_page :: "node list" where
  "sample_page =
     [NavigableString [CHR 10, CHR '' ''],
      Tag ''div'' [''top-h1-style''] [Tag ''h1'' [] [NavigableString ''Sample Title'']],
      sample_table]"

definition sample_env :: env where
  "sample_env = \<lparr>requests_get = (\<lambda>url. Inr \<lparr>status_code = 200, content = sample_page\<rparr>),
     completes_at = (\<lambda>i. 0), write_fails = (\<lambda>k. False)\<rparr>"



definition blank_env :: env where
  "blank_env = \<lparr>requests_get = (\<lambda>url. Inr \<lparr>status_code = 200, content = [NavigableString ''gone'']\<rparr>),
     completes_at = (\<lambda>i. 0), write_fails = (\<lambda>k. False)\<rparr>"

definition refusing_env :: env where
  "refusing_env = \<lparr>requests_get = (\<lambda>url. Inl ConnectionError),
     completes_at = (\<lambda>i. 0), write_fails = (\<lambda>k. False)\<rparr>"

definition not_found_env :: env where
  "not_found_env = \<lparr>requests_get = (\<lambda>url. Inr \<lparr>status_code = 404, content = sample_page\<rparr>),
     completes_at = (\<lambda>i. 0), write_fails = (\<lambda>k. False)\<rparr>"

text \<open>
  The world before a first run, and a batch of three dictionaries of which the first
  and the last have the same link.
\<close>

definition empty_world :: world where
  "empty_world = \<lparr>disk = None, stdout = [], clock = 0, calls = []\<rparr>"

definition sample_batch :: "Record list" where
  "sample_batch =
     [[(''Key 1'', ''a''), (''link'', ''u1'')],
      [(''Key 2'', ''b''), (''link'', ''u2'')],
      [(''Key 1'', ''c''), (''Key 3'', ''d''), (''link'', ''u1'')]]"

text \<open>
  Environments that answer every GET with the sample page. In \<open>flaky_env\<close> the first
  write of the output file fails and the later ones succeed; in \<open>read_only_env\<close> every
  write fails; in \<open>staggered_env\<close> a task submitted later completes sooner.
  \<open>sample_record\<close> is the dictionary the sample page gives for a URL.
\<close>

definition flaky_env :: env where
  "flaky_env = \<lparr>requests_get = (\<lambda>url. Inr \<lparr>status_code = 200, content = sample_page\<rparr>),
     completes_at = (\<lambda>i. 0), write_fails = (\<lambda>k. k = 0)\<rparr>"


definition staggered_env :: env where
  "staggered_env = \<lparr>requests_get = (\<lambda>url. Inr \<lparr>status_code = 200, content = sample_page\<rparr>),
     completes_at = (\<lambda>i. 10 - i), write_fails = (\<lambda>k. False)\<rparr>"

definition sample_record :: "string \<Rightarrow> Record" where
  "sample_record u = [(''Key 1'', ''Value 1''), (''Key 2'', ''Value 2''), (''link'', u)]"
section \<open>The page fetcher\<close>

lemma map_of_setitem: "map_of (setitem d k v) = (map_of d)(k \<mapsto> v)"
  by (induction d k v rule: setitem.induct) (auto simp: fun_eq_iff)

lemma setitem_nonempty: "setitem d k v \<noteq> []"
  by (induction d k v rule: setitem.induct) auto

lemma keys_setitem:
  "keys (setitem d k v) = (if k \<in> set (keys d) then keys d else keys d @ [k])"
  by (induction d k v rule: setitem.induct) (auto simp: keys_def)


text \<open>The definitions to unfold when a concrete page is evaluated.\<close>

lemmas eval_defs = crawl_and_extract_data_def raise_for_status_def extract_data_def
      extract_table_def BeautifulSoup_def find_class_def TABLE_CLASS_def th_td_def
      find_all_def extract_row_def find_def strip_def lstrip_def rstrip_def isspace_def LINK_COLUMN_def
      row_pair_def table_pairs_def keys_def








text \<open>
  Claim C4, as amended. A dictionary the function returns has the key \<open>link\<close> exactly
  when it is not empty, and then the value of \<open>link\<close> is the input URL.
\<close>

theorem returned_record_link:
  assumes "crawl_and_extract_data E url = Inr (Some d)"
  shows "(LINK_COLUMN \<in> set (keys d) \<longleftrightarrow> d \<noteq> []) \<and>
         (d \<noteq> [] \<longrightarrow> map_of d LINK_COLUMN = Some url)"
proof -
  obtain r where r: "requests_get E url = Inr r" and d: "d = extract_data url r"
    using assms
    by (auto simp: crawl_and_extract_data_def split: sum.splits if_splits)
  show ?thesis
  proof (cases "extract_table (BeautifulSoup (content r)) = []")
    case True
    then have "d = []" using d by (simp add: extract_data_def)
    then show ?thesis by (simp add: keys_def)
  next
    case False
    then have "d = setitem (extract_table (BeautifulSoup (content r))) LINK_COLUMN url"
      using d by (simp add: extract_data_def Let_def)
    then show ?thesis
      by (simp add: map_of_setitem setitem_nonempty keys_setitem)
  qed
qed

text \<open>The page of the module's test, for C4.\<close>

theorem returned_record_link_witness:
  "crawl_and_extract_data sample_env ''u'' =
     Inr (Some [(''Key 1'', ''Value 1''), (''Key 2'', ''Value 2''), (''link'', ''u'')]) \<and>
   LINK_COLUMN \<in> set (keys [(''Key 1'', ''Value 1''), (''Key 2'', ''Value 2''), (''link'', ''u'')]) \<and>
   map_of [(''Key 1'', ''Value 1''), (''Key 2'', ''Value 2''), (''link'', ''u'')] LINK_COLUMN = Some ''u''"
proof -
  have 1: "crawl_and_extract_data sample_env ''u'' =
     Inr (Some [(''Key 1'', ''Value 1''), (''Key 2'', ''Value 2''), (''link'', ''u'')])"
    by (simp add: sample_env_def sample_page_def sample_table_def eval_defs)
  show ?thesis using returned_record_link [OF 1] 1 by simp
qed

text \<open>
  Claim C4 as stated fails on a page without the table: the function returns the empty
  dictionary, which is not \<open>None\<close> and has no \<open>link\<close>.
\<close>

theorem empty_record_counterexample:
  "crawl_and_extract_data blank_env ''u'' = Inr (Some []) \<and> LINK_COLUMN \<notin> set (keys [])"
  by (simp add: blank_env_def eval_defs)

text \<open>
  Claim C7. When \<open>requests.get\<close> raises an exception of the \<open>RequestException\<close> family
  (a transport error), or answers with a status for which \<open>raise_for_status\<close> raises
  (400 to 599), the function returns \<open>None\<close>; it raises nothing.
\<close>

theorem fetch_failure_returns_None:
  assumes "(\<exists>e. requests_get E url = Inl e \<and> is_RequestException e) \<or>
           (\<exists>r. requests_get E url = Inr r \<and> 400 \<le> status_code r \<and> status_code r < 600)"
  shows "crawl_and_extract_data E url = Inr None"
  using assms by (auto simp: crawl_and_extract_data_def raise_for_status_def)

text \<open>A refused connection and a 404 answer, for C7.\<close>

theorem fetch_failure_returns_None_witness:
  "requests_get refusing_env ''u'' = Inl ConnectionError \<and> is_RequestException ConnectionError \<and>
   crawl_and_extract_data refusing_env ''u'' = Inr None \<and>
   requests_get not_found_env ''u'' = Inr \<lparr>status_code = 404, content = sample_page\<rparr> \<and>
   crawl_and_extract_data not_found_env ''u'' = Inr None"
proof -
  have 1: "requests_get refusing_env ''u'' = Inl ConnectionError \<and> is_RequestException ConnectionError"
    by (simp add: refusing_env_def)
  have 2: "requests_get not_found_env ''u'' = Inr \<lparr>status_code = 404, content = sample_page\<rparr>"
    by (simp add: not_found_env_def)
  have "crawl_and_extract_data refusing_env ''u'' = Inr None"
    using 1 by (intro fetch_failure_returns_None) blast
  moreover have "crawl_and_extract_data not_found_env ''u'' = Inr None"
    using 2 by (intro fetch_failure_returns_None) simp
  ultimately show ?thesis using 1 2 by simp
qed

text \<open>What the loop of the range crawler needs of a fetched dictionary.\<close>

lemma extract_data_link:
  "extract_data url r \<noteq> [] \<Longrightarrow> map_of (extract_data url r) LINK_COLUMN = Some url"
  by (auto simp: extract_data_def Let_def map_of_setitem)

lemma extract_data_keys:
  "extract_data url r \<noteq> [] \<Longrightarrow> LINK_COLUMN \<in> set (keys (extract_data url r))"
  by (auto simp: extract_data_def Let_def keys_setitem)

lemma linked_crawl_and_extract_data: "linked (crawl_and_extract_data E url)"
  by (auto simp: linked_def good_record_def crawl_and_extract_data_def extract_data_keys
        split: sum.splits option.splits if_splits)
section \<open>The spreadsheet sink\<close>

lemma cell_at_map: "cell_at cols (map f cols) c = (if c \<in> set cols then f c else None)"
  by (simp add: cell_at_def map_of_zip_map)

lemma set_foldl_add_new: "set (foldl add_new acc ks) = set acc \<union> set ks"
  by (induction ks arbitrary: acc) (auto simp: add_new_def)

lemma columns_DataFrame: "set (columns (DataFrame data)) = (\<Union>d\<in>set data. set (keys d))"
  by (simp add: DataFrame_def Let_def set_foldl_add_new)

lemma rows_DataFrame:
  "rows (DataFrame data) = map (\<lambda>d. map (map_of d) (columns (DataFrame data))) data"
  by (simp add: DataFrame_def Let_def)

lemma map_of_None_keys: "c \<notin> set (keys d) \<Longrightarrow> map_of d c = None"
  by (simp add: keys_def map_of_eq_None_iff)

lemma reindex_row:
  assumes "set (keys d) \<subseteq> set old"
  shows "reindex old new (map (map_of d) old) = map (map_of d) new"
proof -
  have "c \<notin> set old \<Longrightarrow> map_of d c = None" for c
    using assms by (intro map_of_None_keys) blast
  then show ?thesis by (simp add: reindex_def cell_at_map)
qed

lemma columns_concat: "set (columns (concat_frames a b)) = set (columns a) \<union> set (columns b)"
  by (simp add: concat_frames_def Let_def set_foldl_add_new)

lemma rows_concat_DataFrame:
  "rows (concat_frames a (DataFrame data)) =
     map (reindex (columns a) (columns (concat_frames a (DataFrame data)))) (rows a) @
     map (row_of (concat_frames a (DataFrame data))) data"
proof -
  have "\<And>d. d \<in> set data \<Longrightarrow> set (keys d) \<subseteq> set (columns (DataFrame data))"
    by (auto simp: columns_DataFrame)
  then show ?thesis
    by (simp add: concat_frames_def Let_def rows_DataFrame reindex_row row_of_def)
qed







lemma calls_append_or_create_excel:
  "calls (snd (append_or_create_excel E data a w)) = calls w @ [data]"
  by (auto simp: append_or_create_excel_def Let_def to_excel_def print_def
        split: option.splits sum.splits prod.splits if_splits)




lemma link_in_columns_DataFrame:
  assumes "\<forall>d\<in>set batch. LINK_COLUMN \<in> set (keys d)" and "batch \<noteq> []"
  shows "LINK_COLUMN \<in> set (columns (DataFrame batch))"
proof -
  obtain d where "d \<in> set batch" using assms(2) by (cases batch) auto
  then show ?thesis using assms(1) by (auto simp: columns_DataFrame)
qed

lemma concat_not_empty:
  assumes "\<forall>d\<in>set batch. LINK_COLUMN \<in> set (keys d)" and "batch \<noteq> []"
  shows "LINK_COLUMN \<in> set (columns (concat_frames a (DataFrame batch)))"
    and "\<not> empty_frame (concat_frames a (DataFrame batch))"
proof -
  show 1: "LINK_COLUMN \<in> set (columns (concat_frames a (DataFrame batch)))"
    using link_in_columns_DataFrame [OF assms] by (simp add: columns_concat)
  have "rows (concat_frames a (DataFrame batch)) \<noteq> []"
    using assms(2) by (simp add: rows_concat_DataFrame)
  moreover have "columns (concat_frames a (DataFrame batch)) \<noteq> []"
    using 1 by auto
  ultimately show "\<not> empty_frame (concat_frames a (DataFrame batch))"
    by (simp add: empty_frame_def)
qed

lemma drop_duplicates_Inr:
  assumes "empty_frame df \<or> LINK_COLUMN \<in> set (columns df)"
  shows "\<exists>df'. drop_duplicates df LINK_COLUMN = Inr df' \<and>
           (empty_frame df' \<or> LINK_COLUMN \<in> set (columns df'))"
  using assms by (auto simp: drop_duplicates_def)

lemma concat_persisted:
  assumes "\<forall>d\<in>set batch. LINK_COLUMN \<in> set (keys d)"
    and "batch \<noteq> [] \<or> empty_frame a \<or> LINK_COLUMN \<in> set (columns a)"
  shows "empty_frame (concat_frames a (DataFrame batch)) \<or>
         LINK_COLUMN \<in> set (columns (concat_frames a (DataFrame batch)))"
proof (cases "batch = []")
  case False
  then show ?thesis using concat_not_empty(1) [OF assms(1)] by simp
next
  case True
  then have e: "empty_frame a \<or> LINK_COLUMN \<in> set (columns a)" using assms(2) by simp
  have c: "columns (concat_frames a (DataFrame [])) = columns a"
    by (simp add: concat_frames_def DataFrame_def Let_def)
  have r: "rows a = [] \<Longrightarrow> rows (concat_frames a (DataFrame [])) = []"
    by (simp add: concat_frames_def DataFrame_def Let_def)
  show ?thesis using e c r True by (auto simp: empty_frame_def)
qed

lemma persist_succeeds:
  assumes "\<forall>d\<in>set batch. LINK_COLUMN \<in> set (keys d)"
    and "batch \<noteq> [] \<or> persisted_table (disk w)"
    and "\<not> write_fails E (length (calls w))"
  shows "\<exists>w'. append_or_create_excel E batch True w = (Inr (), w') \<and>
           disk w' \<noteq> None \<and> persisted_table (disk w') \<and> calls w' = calls w @ [batch]"
proof (cases "disk w")
  case None
  have "empty_frame (DataFrame batch) \<or> LINK_COLUMN \<in> set (columns (DataFrame batch))"
  proof (cases "batch = []")
    case True
    then show ?thesis by (simp add: empty_frame_def DataFrame_def)
  next
    case False
    then show ?thesis using link_in_columns_DataFrame [OF assms(1)] by simp
  qed
  then show ?thesis
    using None assms(3)
    by (simp add: append_or_create_excel_def Let_def to_excel_def print_def persisted_table_def)
next
  case (Some a)
  have "batch \<noteq> [] \<or> empty_frame a \<or> LINK_COLUMN \<in> set (columns a)"
    using assms(2) Some by (auto simp: persisted_table_def)
  from concat_persisted [OF assms(1) this]
  obtain df' where "drop_duplicates (concat_frames a (DataFrame batch)) LINK_COLUMN = Inr df'"
    and "empty_frame df' \<or> LINK_COLUMN \<in> set (columns df')"
    using drop_duplicates_Inr by blast
  then show ?thesis
    using Some assms(3)
    by (simp add: append_or_create_excel_def Let_def to_excel_def print_def persisted_table_def)
qed




text \<open>
  The definitions to unfold when the sink is evaluated on a concrete batch, and the
  file after the sample batch was written twice: the first row of the batch has given
  way to the third, which has the same link.
\<close>

lemmas sink_defs = append_or_create_excel_def to_excel_def print_def DataFrame_def
  concat_frames_def drop_duplicates_def empty_frame_def add_new_def keys_def reindex_def
  cell_at_def LINK_COLUMN_def Let_def

lemma sample_twice:
  "disk (snd (append_or_create_excel sample_env sample_batch True
           (snd (append_or_create_excel sample_env sample_batch True empty_world)))) =
   Some \<lparr>columns = [''Key 1'', ''link'', ''Key 2'', ''Key 3''],
         rows = [[None, Some ''u2'', Some ''b'', None],
                 [Some ''c'', Some ''u1'', None, Some ''d'']]\<rparr>"
  by (simp add: sample_env_def sample_batch_def empty_world_def sink_defs)


subsection \<open>When the sink returns and when it raises\<close>

lemma clock_append_or_create_excel:
  "clock (snd (append_or_create_excel E data a w)) = clock w"
  by (auto simp: append_or_create_excel_def Let_def to_excel_def print_def
        split: option.splits sum.splits prod.splits if_splits)

lemma append_or_create_excel_returns:
  assumes "\<forall>d\<in>set batch. LINK_COLUMN \<in> set (keys d)" and "batch \<noteq> []"
    and "\<not> write_fails E (length (calls w))"
  shows "\<exists>w'. append_or_create_excel E batch a w = (Inr (), w')"
proof (cases a)
  case True
  have "batch \<noteq> [] \<or> persisted_table (disk w)" using assms(2) by simp
  from persist_succeeds [OF assms(1) this assms(3)]
  show ?thesis using True by auto
next
  case False
  then show ?thesis using assms(3)
    by (simp add: append_or_create_excel_def Let_def to_excel_def)
qed

lemma append_or_create_excel_raises:
  assumes "write_fails E (length (calls w))"
  shows "\<exists>e w'. append_or_create_excel E batch a w = (Inl e, w')"
  using assms
  by (auto simp: append_or_create_excel_def Let_def to_excel_def split: option.splits sum.splits)

lemma raise_is_write_failure:
  assumes "\<forall>d\<in>set batch. LINK_COLUMN \<in> set (keys d)" and "batch \<noteq> []"
    and "append_or_create_excel E batch a w = (Inl e, w')"
  shows "e = OSError \<and> write_fails E (length (calls w))"
proof -
  have wf: "write_fails E (length (calls w))"
    using append_or_create_excel_returns [OF assms(1,2), of E w a] assms(3) by auto
  have "e = OSError"
  proof (cases "if a then disk (w\<lparr>calls := calls w @ [batch]\<rparr>) else None")
    case None
    then show ?thesis using assms(3)
      by (auto simp: append_or_create_excel_def Let_def to_excel_def split: if_splits)
  next
    case (Some ex)
    obtain df where "drop_duplicates (concat_frames ex (DataFrame batch)) LINK_COLUMN = Inr df"
      using drop_duplicates_Inr concat_not_empty(1) [OF assms(1,2)] by blast
    then show ?thesis using Some assms(3)
      by (auto simp: append_or_create_excel_def Let_def to_excel_def split: if_splits)
  qed
  then show ?thesis using wf by simp
qed

lemma append_or_create_excel_clock:
  "append_or_create_excel E data a (w\<lparr>clock := c\<rparr>) =
     (fst (append_or_create_excel E data a w), (snd (append_or_create_excel E data a w))\<lparr>clock := c\<rparr>)"
  by (auto simp: append_or_create_excel_def Let_def to_excel_def print_def
        split: option.splits sum.splits)

lemma append_or_create_excel_env:
  "write_fails E' = write_fails E \<Longrightarrow>
     append_or_create_excel E' data a w = append_or_create_excel E data a w"
proof -
  assume "write_fails E' = write_fails E"
  then have h: "to_excel E' = to_excel E"
    by (intro ext) (simp add: to_excel_def)
  show ?thesis unfolding append_or_create_excel_def h by (rule refl)
qed
section \<open>The range crawler\<close>

subsection \<open>One turn of the loop\<close>

text \<open>
  Whatever line 94 does, the turn ends with the variables as they were and a world that
  differs in the standard output only.
\<close>

lemma report_progress_handled:
  obtains w' where
    "(case report_progress s t i (l, w) of
        (Inl e, l', w') \<Rightarrow> (l', print (ErrorInThread e) w')
      | (Inr _, l', w') \<Rightarrow> (l', w')) = (l, w')"
    and "calls w' = calls w" and "disk w' = disk w" and "clock w' = clock w"
  by (cases "t = 0") (auto simp: report_progress_def print_def)

text \<open>
  The four ways a turn of the loop can go: \<open>future.result()\<close> raises; the batch is
  below the batch size and nothing is flushed; the batch is flushed and emptied; the
  flush raises and the batch stays.
\<close>

lemma process_future_cases [case_names raised no_flush flushed flush_failed]:
  obtains
    (raised) e where "outcome f = Inl e"
      and "process_future E s t a i f (l, w) = (l, print (ErrorInThread e) (snd (result f w)))"
  | (no_flush) x w' where "outcome f = Inr x"
      and "length (all_data (collect s i x l)) < batch_size"
      and "process_future E s t a i f (l, w) = (collect s i x l, w')"
      and "calls w' = calls w" and "disk w' = disk w"
      and "clock w' = clock (snd (result f w))"
  | (flushed) x w1 w' where "outcome f = Inr x"
      and "batch_size \<le> length (all_data (collect s i x l))"
      and "append_or_create_excel E (all_data (collect s i x l)) a (snd (result f w)) = (Inr (), w1)"
      and "process_future E s t a i f (l, w) = ((collect s i x l)\<lparr>all_data := []\<rparr>, w')"
      and "calls w' = calls w1" and "disk w' = disk w1" and "clock w' = clock w1"
  | (flush_failed) x e w1 where "outcome f = Inr x"
      and "batch_size \<le> length (all_data (collect s i x l))"
      and "append_or_create_excel E (all_data (collect s i x l)) a (snd (result f w)) = (Inl e, w1)"
      and "process_future E s t a i f (l, w) = (collect s i x l, print (ErrorInThread e) w1)"
proof (cases "outcome f")
  case (Inl e)
  then have "process_future E s t a i f (l, w) = (l, print (ErrorInThread e) (snd (result f w)))"
    by (simp add: process_future_def try_body_def result_def)
  with Inl show ?thesis by (rule raised)
next
  case (Inr x)
  let ?l1 = "collect s i x l"
  define w0 where "w0 = snd (result f w)"
  have r: "result f w = (Inr x, w0)" using Inr by (simp add: result_def w0_def)
  show ?thesis
  proof (cases "batch_size \<le> length (all_data ?l1)")
    case False
    obtain w' where h: "(case report_progress s t i (?l1, w0) of
          (Inl e, l', w') \<Rightarrow> (l', print (ErrorInThread e) w')
        | (Inr _, l', w') \<Rightarrow> (l', w')) = (?l1, w')"
      and w': "calls w' = calls w0" "disk w' = disk w0" "clock w' = clock w0"
      by (rule report_progress_handled)
    have "flush_if_full E a (?l1, w0) = (Inr (), ?l1, w0)"
      using False by (simp add: flush_if_full_def)
    then have tb: "try_body E s t a i f (l, w) = report_progress s t i (?l1, w0)"
      using r by (simp add: try_body_def)
    have pf: "process_future E s t a i f (l, w) = (?l1, w')"
      by (simp only: process_future_def tb h)
    have "calls w0 = calls w" "disk w0 = disk w" by (simp_all add: result_def w0_def)
    then show ?thesis using Inr False w' pf by (intro no_flush [of x w']) (simp_all add: w0_def)
  next
    case True
    obtain r1 w1 where p: "append_or_create_excel E (all_data ?l1) a w0 = (r1, w1)"
      by (cases "append_or_create_excel E (all_data ?l1) a w0")
    show ?thesis
    proof (cases r1)
      case (Inl e)
      have "flush_if_full E a (?l1, w0) = (Inl e, ?l1, w1)"
        using True p Inl by (simp add: flush_if_full_def)
      then have tb: "try_body E s t a i f (l, w) = (Inl e, ?l1, w1)"
        using r by (simp add: try_body_def)
      have "process_future E s t a i f (l, w) = (?l1, print (ErrorInThread e) w1)"
        by (simp add: process_future_def tb)
      then show ?thesis
        using \<open>outcome f = Inr x\<close> True p Inl
        by (intro flush_failed [of x e w1]) (simp_all add: w0_def)
    next
      case (Inr u)
      let ?l2 = "?l1\<lparr>all_data := []\<rparr>"
      obtain w' where h: "(case report_progress s t i (?l2, w1) of
            (Inl e, l', w') \<Rightarrow> (l', print (ErrorInThread e) w')
          | (Inr _, l', w') \<Rightarrow> (l', w')) = (?l2, w')"
        and w': "calls w' = calls w1" "disk w' = disk w1" "clock w' = clock w1"
        by (rule report_progress_handled)
      have "flush_if_full E a (?l1, w0) = (Inr (), ?l2, w1)"
        using True p Inr by (simp add: flush_if_full_def)
      then have tb: "try_body E s t a i f (l, w) = report_progress s t i (?l2, w1)"
        using r by (simp add: try_body_def)
      have pf: "process_future E s t a i f (l, w) = (?l2, w')"
        by (simp only: process_future_def tb h)
      show ?thesis
        using \<open>outcome f = Inr x\<close> True p Inr w' pf
        by (intro flushed [of x w1 w']) (simp_all add: w0_def)
    qed
  qed
qed

lemma all_data_collect:
  "all_data (collect s i x l) =
     all_data l @ (case good_record (Inr x) of None \<Rightarrow> [] | Some d \<Rightarrow> [d])"
  by (simp add: collect_def good_record_def split: option.splits)

lemma error_links_collect:
  "error_links (collect s i x l) =
     error_links l @ (if no_record (Inr x) then [url_of (s + int i)] else [])"
  by (simp add: collect_def no_record_def url_of_def split: option.splits)

lemma successes_Cons:
  "successes (x # xs) = (case good_record x of None \<Rightarrow> [] | Some d \<Rightarrow> [d]) @ successes xs"
  by (simp add: successes_def split: option.splits)

lemma good_record_Inl [simp]: "good_record (Inl e) = None"
  by (simp add: good_record_def)

lemma calls_result [simp]: "calls (snd (result f w)) = calls w"
  by (simp add: result_def)

lemma calls_print [simp]: "calls (print x w) = calls w"
  by (simp add: print_def)

subsection \<open>The batches given to the sink\<close>

text \<open>
  Every batch the loop passes to the sink, and the batch left at the end, is a run of
  consecutive elements of the batch at the start followed by the dictionaries of the
  successful futures, in the order of the futures.
\<close>

lemma slice_shift:
  assumes "c = take (length c) (drop k ys)"
  shows "\<exists>k'. c = take (length c) (drop k' (xs @ ys))"
proof
  show "c = take (length c) (drop (length xs + k) (xs @ ys))"
    using assms by (simp add: drop_append)
qed

lemma loop_slices:
  "\<exists>cs k. calls (snd (crawl_loop E s t a i fs (l, w))) = calls w @ cs \<and>
     (\<forall>c\<in>set cs. \<exists>k. c = take (length c) (drop k (all_data l @ successes (map outcome fs)))) \<and>
     all_data (fst (crawl_loop E s t a i fs (l, w))) =
       drop k (all_data l @ successes (map outcome fs))"
proof (induction fs arbitrary: i l w)
  case Nil
  have "all_data l = drop 0 (all_data l @ successes (map outcome []))"
    by (simp add: successes_def)
  then show ?case by (metis append_Nil2 crawl_loop.simps(1) empty_iff fst_conv set_empty snd_conv)
next
  case (Cons f fs)
  let ?S = "successes (map outcome fs)"
  let ?T = "all_data l @ successes (map outcome (f # fs))"
  show ?case
  proof (cases rule: process_future_cases [of f E s t a i l w])
    case (raised e)
    from Cons.IH [of "Suc i" l "print (ErrorInThread e) (snd (result f w))"]
    show ?thesis using raised by (simp add: successes_Cons)
  next
    case (no_flush x w')
    have T: "?T = all_data (collect s i x l) @ ?S"
      using no_flush(1) by (simp add: successes_Cons all_data_collect)
    from Cons.IH [of "Suc i" "collect s i x l" w']
    show ?thesis using no_flush(3,4) by (simp only: T crawl_loop.simps)
  next
    case (flushed x w1 w')
    let ?A = "all_data (collect s i x l)"
    have T: "?T = ?A @ ?S"
      using flushed(1) by (simp add: successes_Cons all_data_collect)
    have c: "calls w' = calls w @ [?A]"
      using flushed(3,5) calls_append_or_create_excel [of E ?A a "snd (result f w)"] by simp
    obtain cs k where cs: "calls (snd (crawl_loop E s t a (Suc i) fs ((collect s i x l)\<lparr>all_data := []\<rparr>, w'))) = calls w' @ cs"
      and sl: "\<forall>c\<in>set cs. \<exists>k. c = take (length c) (drop k ?S)"
      and ad: "all_data (fst (crawl_loop E s t a (Suc i) fs ((collect s i x l)\<lparr>all_data := []\<rparr>, w'))) = drop k ?S"
      using Cons.IH [of "Suc i" "(collect s i x l)\<lparr>all_data := []\<rparr>" w'] by auto
    have 1: "calls (snd (crawl_loop E s t a i (f # fs) (l, w))) = calls w @ (?A # cs)"
      using cs c flushed(4) by simp
    have 2: "\<forall>c\<in>set (?A # cs). \<exists>k. c = take (length c) (drop k ?T)"
    proof
      fix c assume "c \<in> set (?A # cs)"
      then consider "c = ?A" | "c \<in> set cs" by auto
      then show "\<exists>k. c = take (length c) (drop k ?T)"
      proof cases
        case 1
        then have "c = take (length c) (drop 0 ?T)" unfolding T by simp
        then show ?thesis by blast
      next
        case 2
        then obtain k' where "c = take (length c) (drop k' ?S)" using sl by blast
        then show ?thesis unfolding T by (rule slice_shift)
      qed
    qed
    have 3: "all_data (fst (crawl_loop E s t a i (f # fs) (l, w))) = drop (length ?A + k) ?T"
      using ad flushed(4) unfolding T by (simp add: drop_append)
    show ?thesis using 1 2 3 by blast
  next
    case (flush_failed x e w1)
    let ?A = "all_data (collect s i x l)"
    have T: "?T = ?A @ ?S"
      using flush_failed(1) by (simp add: successes_Cons all_data_collect)
    have c: "calls (print (ErrorInThread e) w1) = calls w @ [?A]"
      using flush_failed(3) calls_append_or_create_excel [of E ?A a "snd (result f w)"] by simp
    obtain cs k where cs: "calls (snd (crawl_loop E s t a (Suc i) fs (collect s i x l, print (ErrorInThread e) w1))) = calls (print (ErrorInThread e) w1) @ cs"
      and sl: "\<forall>c\<in>set cs. \<exists>k. c = take (length c) (drop k (?A @ ?S))"
      and ad: "all_data (fst (crawl_loop E s t a (Suc i) fs (collect s i x l, print (ErrorInThread e) w1))) = drop k (?A @ ?S)"
      using Cons.IH [of "Suc i" "collect s i x l" "print (ErrorInThread e) w1"] by auto
    have 1: "calls (snd (crawl_loop E s t a i (f # fs) (l, w))) = calls w @ (?A # cs)"
      using cs c flush_failed(4) by simp
    have "?A = take (length ?A) (drop 0 ?T)" unfolding T by simp
    then have 2: "\<forall>c\<in>set (?A # cs). \<exists>k. c = take (length c) (drop k ?T)"
      using sl unfolding T by (metis set_ConsD)
    have 3: "all_data (fst (crawl_loop E s t a i (f # fs) (l, w))) = drop k ?T"
      using ad flush_failed(4) unfolding T by simp
    show ?thesis using 1 2 3 by blast
  qed
qed

subsection \<open>The loop when no write fails\<close>

lemma set_successes:
  assumes "\<forall>x\<in>set xs. linked x"
  shows "\<forall>d\<in>set (successes xs). LINK_COLUMN \<in> set (keys d)"
  using assms
  by (induction xs) (auto simp: successes_Cons linked_def successes_def split: option.splits)

lemma collect_linked:
  assumes "\<forall>d\<in>set (all_data l). LINK_COLUMN \<in> set (keys d)" and "linked (Inr x)"
  shows "\<forall>d\<in>set (all_data (collect s i x l)). LINK_COLUMN \<in> set (keys d)"
  using assms by (auto simp: all_data_collect linked_def split: option.splits)

lemma loop_no_failure:
  assumes "\<forall>k\<ge>length (calls w). \<not> write_fails E k"
    and "\<forall>d\<in>set (all_data l). LINK_COLUMN \<in> set (keys d)"
    and "\<forall>f\<in>set fs. linked (outcome f)"
    and "length (all_data l) < batch_size"
  shows "\<exists>cs. calls (snd (crawl_loop E s t a i fs (l, w))) = calls w @ cs \<and>
           concat cs @ all_data (fst (crawl_loop E s t a i fs (l, w))) =
             all_data l @ successes (map outcome fs) \<and>
           (\<forall>c\<in>set cs. length c = batch_size) \<and>
           length (all_data (fst (crawl_loop E s t a i fs (l, w)))) < batch_size"
  using assms
proof (induction fs arbitrary: i l w)
  case Nil
  then show ?case by (simp add: successes_def)
next
  case (Cons f fs)
  let ?S = "successes (map outcome fs)"
  let ?T = "all_data l @ successes (map outcome (f # fs))"
  have lf: "linked (outcome f)" and lfs: "\<forall>f\<in>set fs. linked (outcome f)"
    using Cons.prems(3) by simp_all
  show ?case
  proof (cases rule: process_future_cases [of f E s t a i l w])
    case (raised e)
    have "\<forall>k\<ge>length (calls (print (ErrorInThread e) (snd (result f w)))). \<not> write_fails E k"
      using Cons.prems(1) by simp
    from Cons.IH [OF this Cons.prems(2) lfs Cons.prems(4), of "Suc i"]
    show ?thesis using raised by (simp add: successes_Cons)
  next
    case (no_flush x w')
    have T: "?T = all_data (collect s i x l) @ ?S"
      using no_flush(1) by (simp add: successes_Cons all_data_collect)
    have 1: "\<forall>k\<ge>length (calls w'). \<not> write_fails E k"
      using Cons.prems(1) no_flush(4) by simp
    have 2: "\<forall>d\<in>set (all_data (collect s i x l)). LINK_COLUMN \<in> set (keys d)"
      using collect_linked [OF Cons.prems(2)] lf no_flush(1) by simp
    from Cons.IH [OF 1 2 lfs no_flush(2), of "Suc i"]
    show ?thesis using no_flush(3,4) by (simp only: T crawl_loop.simps)
  next
    case (flushed x w1 w')
    let ?A = "all_data (collect s i x l)"
    have T: "?T = ?A @ ?S"
      using flushed(1) by (simp add: successes_Cons all_data_collect)
    have len: "length ?A = batch_size"
    proof -
      have "length ?A \<le> Suc (length (all_data l))"
        by (simp add: all_data_collect split: option.splits)
      then show ?thesis using flushed(2) Cons.prems(4) by simp
    qed
    have c: "calls w' = calls w @ [?A]"
      using flushed(3,5) calls_append_or_create_excel [of E ?A a "snd (result f w)"] by simp
    have 1: "\<forall>k\<ge>length (calls w'). \<not> write_fails E k"
      using Cons.prems(1) c by simp
    have 2: "\<forall>d\<in>set (all_data ((collect s i x l)\<lparr>all_data := []\<rparr>)). LINK_COLUMN \<in> set (keys d)"
      by simp
    have 3: "length (all_data ((collect s i x l)\<lparr>all_data := []\<rparr>)) < batch_size"
      by (simp add: batch_size_def)
    from Cons.IH [OF 1 2 lfs 3, of "Suc i"]
    obtain cs where cs: "calls (snd (crawl_loop E s t a (Suc i) fs ((collect s i x l)\<lparr>all_data := []\<rparr>, w'))) = calls w' @ cs"
      and cc: "concat cs @ all_data (fst (crawl_loop E s t a (Suc i) fs ((collect s i x l)\<lparr>all_data := []\<rparr>, w'))) = ?S"
      and ln: "\<forall>c\<in>set cs. length c = batch_size"
      and lt: "length (all_data (fst (crawl_loop E s t a (Suc i) fs ((collect s i x l)\<lparr>all_data := []\<rparr>, w')))) < batch_size"
      by auto
    have "calls (snd (crawl_loop E s t a i (f # fs) (l, w))) = calls w @ (?A # cs)"
      using cs c flushed(4) by simp
    moreover have "concat (?A # cs) @ all_data (fst (crawl_loop E s t a i (f # fs) (l, w))) = ?T"
      using cc flushed(4) unfolding T by simp
    moreover have "\<forall>c\<in>set (?A # cs). length c = batch_size" using ln len by simp
    moreover have "length (all_data (fst (crawl_loop E s t a i (f # fs) (l, w)))) < batch_size"
      using lt flushed(4) by simp
    ultimately show ?thesis by blast
  next
    case (flush_failed x e w1)
    let ?A = "all_data (collect s i x l)"
    have "\<forall>d\<in>set ?A. LINK_COLUMN \<in> set (keys d)"
      using collect_linked [OF Cons.prems(2)] lf flush_failed(1) by simp
    moreover have "?A \<noteq> []" using flush_failed(2) by (auto simp: batch_size_def)
    ultimately have "write_fails E (length (calls (snd (result f w))))"
      using raise_is_write_failure [OF _ _ flush_failed(3)] by blast
    then have False using Cons.prems(1) by simp
    then show ?thesis ..
  qed
qed

subsection \<open>The futures of a range\<close>

lemma outcome_submit_all:
  "map outcome (submit_all E s e) = map (\<lambda>n. crawl_and_extract_data E (url_of n)) [s..e]"
proof -
  have "map outcome (submit_all E s e) =
        map ((\<lambda>n. crawl_and_extract_data E (url_of n)) \<circ> snd) (enumerate 0 [s..e])"
    by (simp add: submit_all_def submit_def url_of_def comp_def case_prod_beta)
  also have "\<dots> = map (\<lambda>n. crawl_and_extract_data E (url_of n)) (map snd (enumerate 0 [s..e]))"
    by (simp only: map_map)
  also have "\<dots> = map (\<lambda>n. crawl_and_extract_data E (url_of n)) [s..e]"
    by (simp only: map_snd_enumerate)
  finally show ?thesis .
qed

lemma done_at_submit_all:
  "map done_at (submit_all E s e) = map (completes_at E) [0..<length [s..e]]"
proof -
  have "map done_at (submit_all E s e) = map (completes_at E \<circ> fst) (enumerate 0 [s..e])"
    by (simp add: submit_all_def submit_def comp_def case_prod_beta)
  also have "\<dots> = map (completes_at E) (map fst (enumerate 0 [s..e]))"
    by (simp only: map_map)
  also have "\<dots> = map (completes_at E) [0..<length [s..e]]"
    by (simp only: map_fst_enumerate add_0)
  finally show ?thesis .
qed

lemma length_submit_all: "length (submit_all E s e) = length [s..e]"
  by (simp add: submit_all_def)

lemma linked_submit_all: "\<forall>f\<in>set (submit_all E s e). linked (outcome f)"
  by (auto simp: submit_all_def submit_def linked_crawl_and_extract_data)

lemma crawl_loop_append:
  "crawl_loop E s t a i (xs @ ys) st =
     crawl_loop E s t a (i + length xs) ys (crawl_loop E s t a i xs st)"
  by (induction xs arbitrary: i st) simp_all

subsection \<open>The clock\<close>

text \<open>A turn of the loop ends when its future has completed, not before.\<close>

lemma clock_process_future:
  "clock (snd (process_future E s t a i f (l, w))) = max (clock w) (done_at f)"
proof (cases rule: process_future_cases [of f E s t a i l w])
  case (raised e)
  then show ?thesis by (simp add: print_def result_def)
next
  case (no_flush x w')
  then show ?thesis by (simp add: result_def)
next
  case (flushed x w1 w')
  then show ?thesis
    using clock_append_or_create_excel [of E "all_data (collect s i x l)" a "snd (result f w)"]
    by (simp add: result_def)
next
  case (flush_failed x e w1)
  then show ?thesis
    using clock_append_or_create_excel [of E "all_data (collect s i x l)" a "snd (result f w)"]
    by (simp add: result_def print_def)
qed

lemma clock_crawl_loop:
  "clock (snd (crawl_loop E s t a i fs (l, w))) = fold max (map done_at fs) (clock w)"
proof (induction fs arbitrary: i l w)
  case Nil
  show ?case by simp
next
  case (Cons f fs)
  obtain l1 w1 where p: "process_future E s t a i f (l, w) = (l1, w1)"
    by (cases "process_future E s t a i f (l, w)")
  have "clock w1 = max (clock w) (done_at f)"
    using clock_process_future [of E s t a i f l w] p by simp
  then show ?case using Cons [of "Suc i" l1 w1] p by (simp add: max.commute)
qed

lemma fold_max_ge: "(c::nat) \<le> fold max xs c \<and> (\<forall>x\<in>set xs. x \<le> fold max xs c)"
proof (induction xs arbitrary: c)
  case Nil
  show ?case by simp
next
  case (Cons y ys)
  have "max y c \<le> fold max ys (max y c)" using Cons by blast
  then show ?case using Cons [of "max y c"] by auto
qed

text \<open>
  The completion times have no effect on a turn but through the clock.
\<close>

lemma process_future_clock:
  assumes "write_fails E' = write_fails E" and "outcome f' = outcome f"
  shows "process_future E' s t a i f' (l, w\<lparr>clock := c\<rparr>) =
     (fst (process_future E s t a i f (l, w)),
      (snd (process_future E s t a i f (l, w)))\<lparr>clock := max c (done_at f')\<rparr>)"
  using assms
  by (auto simp: process_future_def try_body_def result_def flush_if_full_def
        report_progress_def print_def append_or_create_excel_clock
        append_or_create_excel_env [OF assms(1)]
        split: sum.splits prod.splits)

lemma crawl_loop_clock:
  assumes "write_fails E' = write_fails E" and "map outcome fs' = map outcome fs"
  shows "\<exists>c'. crawl_loop E' s t a i fs' (l, w\<lparr>clock := c\<rparr>) =
     (fst (crawl_loop E s t a i fs (l, w)), (snd (crawl_loop E s t a i fs (l, w)))\<lparr>clock := c'\<rparr>)"
  using assms(2)
proof (induction fs arbitrary: fs' i l w c)
  case Nil
  then have "fs' = []" by simp
  then show ?case by (intro exI [where x = c]) simp
next
  case (Cons f fs)
  then obtain f' gs where fs': "fs' = f' # gs" and o: "outcome f' = outcome f"
    and m: "map outcome gs = map outcome fs"
    by (cases fs') auto
  obtain l1 w1 where p: "process_future E s t a i f (l, w) = (l1, w1)"
    by (cases "process_future E s t a i f (l, w)")
  have "process_future E' s t a i f' (l, w\<lparr>clock := c\<rparr>) = (l1, w1\<lparr>clock := max c (done_at f')\<rparr>)"
    using process_future_clock [OF assms(1) o, where s = s and t = t and a = a and i = i
        and l = l and w = w and c = c] p by simp
  then show ?case
    using Cons.IH [OF m, where i = "Suc i" and l = l1 and w = w1 and c = "max c (done_at f')"]
      p fs' by simp
qed

subsection \<open>The failure list\<close>

lemma error_links_process_future:
  "error_links (fst (process_future E s t a i f (l, w))) =
     error_links l @ (if no_record (outcome f) then [url_of (s + int i)] else [])"
proof (cases rule: process_future_cases [of f E s t a i l w])
  case (raised e)
  then show ?thesis by (simp add: no_record_def)
next
  case (no_flush x w')
  then show ?thesis by (simp add: error_links_collect)
next
  case (flushed x w1 w')
  then show ?thesis by (simp add: error_links_collect)
next
  case (flush_failed x e w1)
  then show ?thesis by (simp add: error_links_collect)
qed

lemma error_links_crawl_loop:
  "error_links (fst (crawl_loop E s t a i fs (l, w))) =
     error_links l @
     map (\<lambda>j. url_of (s + int (i + j)))
       (filter (\<lambda>j. no_record (outcome (fs ! j))) [0..<length fs])"
proof (induction fs arbitrary: i l w)
  case Nil
  show ?case by simp
next
  case (Cons f fs)
  obtain l1 w1 where p: "process_future E s t a i f (l, w) = (l1, w1)"
    by (cases "process_future E s t a i f (l, w)")
  have e1: "error_links l1 =
     error_links l @ (if no_record (outcome f) then [url_of (s + int i)] else [])"
    using error_links_process_future [of E s t a i f l w] p by simp
  have up: "[0..<length (f # fs)] = 0 # map Suc [0..<length fs]"
    by (simp add: upt_conv_Cons map_Suc_upt del: upt_Suc)
  have "map (\<lambda>j. url_of (s + int (i + j)))
          (filter (\<lambda>j. no_record (outcome ((f # fs) ! j))) [0..<length (f # fs)]) =
        (if no_record (outcome f) then [url_of (s + int i)] else []) @
        map (\<lambda>j. url_of (s + int (Suc i + j)))
          (filter (\<lambda>j. no_record (outcome (fs ! j))) [0..<length fs])"
    unfolding up by (simp add: filter_map comp_def ac_simps)
  then show ?case using Cons [of "Suc i" l1 w1] p e1 by simp
qed

subsection \<open>A failed flush keeps the batch\<close>

lemma retained_grow:
  assumes "retained E n0 (l, w)" and "calls w' = calls w" and "prefix (all_data l) (all_data l')"
  shows "retained E n0 (l', w')"
  using assms unfolding retained_def
  by (auto intro: prefix_order.trans)

lemma retained_call:
  assumes r: "retained E n0 (l, w)" and c: "calls w' = calls w @ [A]"
    and p: "prefix (all_data l) A" and b: "batch_size \<le> length A"
    and f: "write_fails E (length (calls w)) \<longrightarrow> all_data l' = A"
  shows "retained E n0 (l', w')"
proof -
  have "batch_size \<le> length (calls w' ! k) \<and>
        (write_fails E k \<longrightarrow>
           prefix (calls w' ! k)
             (if Suc k < length (calls w') then calls w' ! Suc k else all_data l'))"
    if k: "n0 \<le> k" "k < length (calls w')" for k
  proof (cases "k < length (calls w)")
    case True
    then have old: "batch_size \<le> length (calls w ! k)"
      "write_fails E k \<Longrightarrow> prefix (calls w ! k)
          (if Suc k < length (calls w) then calls w ! Suc k else all_data l)"
      using r k(1) unfolding retained_def by auto
    have "prefix (calls w ! k) ((calls w @ [A]) ! Suc k)" if "write_fails E k"
    proof (cases "Suc k < length (calls w)")
      case True
      then show ?thesis using old(2) [OF that] by (simp add: nth_append)
    next
      case False
      then have "Suc k = length (calls w)" using \<open>k < length (calls w)\<close> by simp
      then have "(calls w @ [A]) ! Suc k = A" by (simp add: nth_append)
      moreover have "prefix (calls w ! k) (all_data l)" using old(2) [OF that] False by simp
      ultimately show ?thesis using p by (auto intro: prefix_order.trans)
    qed
    then show ?thesis using True old(1) by (simp add: c nth_append)
  next
    case False
    then have "k = length (calls w)" using k(2) by (simp add: c)
    then show ?thesis using b f by (simp add: c nth_append)
  qed
  then show ?thesis unfolding retained_def by simp
qed

lemma prefix_collect: "prefix (all_data l) (all_data (collect s i x l))"
  by (simp add: all_data_collect)

lemma retained_process_future:
  assumes "retained E n0 (l, w)"
  shows "retained E n0 (process_future E s t a i f (l, w))"
proof (cases rule: process_future_cases [of f E s t a i l w])
  case (raised e)
  then show ?thesis using retained_grow [OF assms, of "print (ErrorInThread e) (snd (result f w))" l]
    by simp
next
  case (no_flush x w')
  then show ?thesis using retained_grow [OF assms no_flush(4) prefix_collect] by simp
next
  case (flushed x w1 w')
  let ?A = "all_data (collect s i x l)"
  have c: "calls w' = calls w @ [?A]"
    using flushed(3,5) calls_append_or_create_excel [of E ?A a "snd (result f w)"] by simp
  have "\<not> write_fails E (length (calls w))"
    using append_or_create_excel_raises [of E "snd (result f w)" ?A a] flushed(3) by auto
  then show ?thesis
    using retained_call [OF assms c prefix_collect flushed(2)] flushed(4) by simp
next
  case (flush_failed x e w1)
  let ?A = "all_data (collect s i x l)"
  have c: "calls (print (ErrorInThread e) w1) = calls w @ [?A]"
    using flush_failed(3) calls_append_or_create_excel [of E ?A a "snd (result f w)"] by simp
  show ?thesis
    using retained_call [OF assms c prefix_collect flush_failed(2)] flush_failed(4) by simp
qed

lemma retained_crawl_loop:
  assumes "retained E n0 st"
  shows "retained E n0 (crawl_loop E s t a i fs st)"
  using assms
proof (induction fs arbitrary: i st)
  case Nil
  then show ?case by simp
next
  case (Cons f fs)
  obtain l w where st: "st = (l, w)" by (cases st)
  have "retained E n0 (process_future E s t a i f st)"
    using retained_process_future Cons.prems unfolding st by blast
  then show ?case using Cons.IH by simp
qed

lemma retained_initial: "retained E (length (calls w)) (l, w)"
  by (auto simp: retained_def)

lemma failed_flush_keeps_batch:
  assumes "outcome f = Inr x" and "batch_size \<le> length (all_data (collect s i x l))"
    and "append_or_create_excel E (all_data (collect s i x l)) a (snd (result f w)) = (Inl e, w1)"
  shows "process_future E s t a i f (l, w) = (collect s i x l, print (ErrorInThread e) w1)"
proof (cases rule: process_future_cases [of f E s t a i l w])
  case (raised e)
  then show ?thesis using assms(1) by simp
next
  case (no_flush x w')
  then show ?thesis using assms(1,2) by simp
next
  case (flushed x w1 w')
  then show ?thesis using assms(1,3) by simp
next
  case (flush_failed x' e' w1')
  then show ?thesis using assms(1,3) by simp
qed
subsection \<open>The whole run\<close>

lemma with_executor_slices:
  "\<exists>cs k. calls (snd (with_executor E s e a w)) = calls w @ cs \<and>
     (\<forall>c\<in>set cs. \<exists>k. c = take (length c)
        (drop k (successes (map (\<lambda>n. crawl_and_extract_data E (url_of n)) [s..e])))) \<and>
     all_data (fst (with_executor E s e a w)) =
       drop k (successes (map (\<lambda>n. crawl_and_extract_data E (url_of n)) [s..e]))"
  using loop_slices [of E s "e - s + 1" a 0 "submit_all E s e" initial_locals w]
  by (simp add: with_executor_def Let_def outcome_submit_all initial_locals_def)

lemma with_executor_linked:
  "\<forall>d\<in>set (all_data (fst (with_executor E s e a w))). LINK_COLUMN \<in> set (keys d)"
proof -
  let ?R = "successes (map (\<lambda>n. crawl_and_extract_data E (url_of n)) [s..e])"
  obtain k where "all_data (fst (with_executor E s e a w)) = drop k ?R"
    using with_executor_slices by blast
  moreover have "\<forall>d\<in>set ?R. LINK_COLUMN \<in> set (keys d)"
    by (rule set_successes) (simp add: linked_crawl_and_extract_data)
  ultimately show ?thesis by (metis in_set_dropD)
qed

lemma run_outcome:
  assumes "0 < num_threads"
  shows "fst (crawl_kensetsu_databank_range E s e a num_threads w) = Inl x \<longleftrightarrow>
           x = OSError \<and> all_data (fst (with_executor E s e a w)) \<noteq> [] \<and>
           write_fails E (length (calls (snd (with_executor E s e a w))))"
proof -
  obtain l w1 where we: "with_executor E s e a w = (l, w1)"
    by (cases "with_executor E s e a w")
  have lk: "\<forall>d\<in>set (all_data l). LINK_COLUMN \<in> set (keys d)"
    using with_executor_linked [of E s e a w] we by simp
  show ?thesis
  proof (cases "all_data l = []")
    case True
    then show ?thesis using assms we by (simp add: crawl_kensetsu_databank_range_def)
  next
    case False
    obtain r w2 where p: "append_or_create_excel E (all_data l) a w1 = (r, w2)"
      by (cases "append_or_create_excel E (all_data l) a w1")
    show ?thesis
    proof (cases r)
      case (Inl e')
      then have "e' = OSError \<and> write_fails E (length (calls w1))"
        using raise_is_write_failure [OF lk False] p by blast
      then show ?thesis using assms we False p Inl
        by (auto simp: crawl_kensetsu_databank_range_def)
    next
      case (Inr u)
      then have "\<not> write_fails E (length (calls w1))"
        using append_or_create_excel_raises [of E w1 "all_data l" a] p by auto
      then show ?thesis using assms we False p Inr
        by (auto simp: crawl_kensetsu_databank_range_def)
    qed
  qed
qed





text \<open>
  Claim C9. When \<open>end_id < start_id\<close> (and the worker count is positive, so that the
  pool can be made), no task is submitted, and the function returns without an
  exception having changed nothing but the standard output, which gets the final
  newline: the sink is not called and the file is as it was. The progress quotient is
  never computed, as the loop has no turn.
\<close>

theorem empty_range_no_work:
  assumes "end_id < start_id" and "0 < num_threads"
  shows "submit_all E start_id end_id = [] \<and>
         crawl_kensetsu_databank_range E start_id end_id a num_threads w =
           (Inr (), print Newline w)"
  using assms
  by (simp add: submit_all_def crawl_kensetsu_databank_range_def with_executor_def
        initial_locals_def)

text \<open>The range from 5 to 4, for C9.\<close>

theorem empty_range_no_work_witness:
  "(4::int) < 5 \<and> (0::int) < 1 \<and> submit_all sample_env 5 4 = [] \<and>
   crawl_kensetsu_databank_range sample_env 5 4 True 1 empty_world =
     (Inr (), \<lparr>disk = None, stdout = [Newline], clock = 0, calls = []\<rparr>)"
proof -
  have 1: "(4::int) < 5" and 2: "(0::int) < 1" by simp_all
  show ?thesis
    using empty_range_no_work [OF 1 2, of sample_env True empty_world]
    by (simp add: print_def empty_world_def)
qed

subsection \<open>Batches of 32\<close>

lemma length_successes:
  assumes "\<forall>x\<in>set xs. good_record x \<noteq> None"
  shows "length (successes xs) = length xs"
  using assms by (induction xs) (auto simp: successes_Cons successes_def)

lemma with_executor_no_failure:
  assumes "\<forall>k\<ge>length (calls w). \<not> write_fails E k"
  shows "\<exists>cs. calls (snd (with_executor E s e a w)) = calls w @ cs \<and>
           concat cs @ all_data (fst (with_executor E s e a w)) =
             successes (map (\<lambda>n. crawl_and_extract_data E (url_of n)) [s..e]) \<and>
           (\<forall>c\<in>set cs. length c = batch_size) \<and>
           length (all_data (fst (with_executor E s e a w))) < batch_size"
proof -
  have 2: "\<forall>d\<in>set (all_data initial_locals). LINK_COLUMN \<in> set (keys d)"
    and 4: "length (all_data initial_locals) < batch_size"
    by (simp_all add: initial_locals_def batch_size_def)
  from loop_no_failure [OF assms 2 linked_submit_all [of E s e] 4,
      where s = s and t = "e - s + 1" and a = a and i = 0]
  show ?thesis
    by (simp add: with_executor_def Let_def outcome_submit_all initial_locals_def)
qed

lemma final_flush_calls:
  assumes "0 < num_threads"
  shows "calls (snd (crawl_kensetsu_databank_range E s e a num_threads w)) =
           calls (snd (with_executor E s e a w)) @
           (if all_data (fst (with_executor E s e a w)) \<noteq> []
            then [all_data (fst (with_executor E s e a w))] else [])"
proof -
  obtain l w1 where we: "with_executor E s e a w = (l, w1)"
    by (cases "with_executor E s e a w")
  show ?thesis
  proof (cases "all_data l = []")
    case True
    then show ?thesis using assms we by (simp add: crawl_kensetsu_databank_range_def)
  next
    case False
    obtain r w2 where p: "append_or_create_excel E (all_data l) a w1 = (r, w2)"
      by (cases "append_or_create_excel E (all_data l) a w1")
    have "calls w2 = calls w1 @ [all_data l]"
      using calls_append_or_create_excel [of E "all_data l" a w1] p by simp
    then show ?thesis using assms we False p
      by (cases r) (simp_all add: crawl_kensetsu_databank_range_def)
  qed
qed

lemma two_full_chunks:
  assumes "concat cs @ rest = R" and "\<forall>c\<in>set cs. length c = 32" and "length rest < 32"
    and "length R = 65"
  shows "cs = [take 32 R, take 32 (drop 32 R)] \<and> rest = drop 64 R"
proof -
  have "length (concat cs) = 32 * length cs"
    using assms(2) by (induction cs) auto
  then have "32 * length cs + length rest = 65"
    using assms(1,4) by (metis length_append)
  then have n: "length cs = 2" using assms(3) by arith
  then obtain c1 c2 where cs: "cs = [c1, c2]"
    by (cases cs; cases "tl cs"; cases "tl (tl cs)") auto
  then have l: "length c1 = 32" "length c2 = 32" using assms(2) by auto
  have R: "R = c1 @ c2 @ rest" using assms(1) cs by simp
  show ?thesis unfolding cs R using l by simp
qed

text \<open>
  Claim C5. A crawl of 65 identifiers whose fetches all give a dictionary that is not
  empty, in which no write of the file fails, returns after exactly three calls of the
  sink: with the first 32 dictionaries, with the next 32, and with the last one. The
  second batch does not contain the first: \<open>all_data\<close> was emptied after the flush.
\<close>

theorem sixty_five_identifiers_three_flushes:
  assumes "end_id = start_id + 64"
    and "\<forall>n\<in>set [start_id..end_id]. good_record (crawl_and_extract_data E (url_of n)) \<noteq> None"
    and "\<forall>k\<ge>length (calls w). \<not> write_fails E k"
    and "0 < num_threads"
  shows "fst (crawl_kensetsu_databank_range E start_id end_id a num_threads w) = Inr () \<and>
         calls (snd (crawl_kensetsu_databank_range E start_id end_id a num_threads w)) =
           calls w @
           [take 32 (successes (map (\<lambda>n. crawl_and_extract_data E (url_of n)) [start_id..end_id])),
            take 32 (drop 32 (successes (map (\<lambda>n. crawl_and_extract_data E (url_of n)) [start_id..end_id]))),
            drop 64 (successes (map (\<lambda>n. crawl_and_extract_data E (url_of n)) [start_id..end_id]))] \<and>
         length (successes (map (\<lambda>n. crawl_and_extract_data E (url_of n)) [start_id..end_id])) = 65"
proof -
  let ?R = "successes (map (\<lambda>n. crawl_and_extract_data E (url_of n)) [start_id..end_id])"
  let ?l = "fst (with_executor E start_id end_id a w)"
  let ?w = "snd (with_executor E start_id end_id a w)"
  have len: "length ?R = 65"
    using length_successes [of "map (\<lambda>n. crawl_and_extract_data E (url_of n)) [start_id..end_id]"]
      assms(1,2) by simp
  obtain cs where cs: "calls ?w = calls w @ cs" and cc: "concat cs @ all_data ?l = ?R"
    and ln: "\<forall>c\<in>set cs. length c = 32" and lt: "length (all_data ?l) < 32"
    using with_executor_no_failure [OF assms(3), of start_id end_id a]
    by (auto simp: batch_size_def)
  have ch: "cs = [take 32 ?R, take 32 (drop 32 ?R)] \<and> all_data ?l = drop 64 ?R"
    by (rule two_full_chunks [OF cc ln lt len])
  then have ne: "all_data ?l \<noteq> []" using len by auto
  have "\<not> write_fails E (length (calls ?w))" using assms(3) cs by simp
  then have "fst (crawl_kensetsu_databank_range E start_id end_id a num_threads w) \<noteq> Inl x" for x
    using run_outcome [OF assms(4), of E start_id end_id a w x] by simp
  then have 1: "fst (crawl_kensetsu_databank_range E start_id end_id a num_threads w) = Inr ()"
    by (cases "fst (crawl_kensetsu_databank_range E start_id end_id a num_threads w)") auto
  have 2: "calls (snd (crawl_kensetsu_databank_range E start_id end_id a num_threads w)) =
           calls w @ [take 32 ?R, take 32 (drop 32 ?R), drop 64 ?R]"
    using final_flush_calls [OF assms(4), of E start_id end_id a w] ne cs ch by simp
  show ?thesis using 1 2 len by simp
qed

lemma sample_fetch:
  "crawl_and_extract_data sample_env u =
     Inr (Some [(''Key 1'', ''Value 1''), (''Key 2'', ''Value 2''), (''link'', u)])"
  by (simp add: sample_env_def sample_page_def sample_table_def eval_defs)

text \<open>The identifiers 1 to 65 on the sample page, for C5.\<close>

theorem sixty_five_identifiers_three_flushes_witness:
  "fst (crawl_kensetsu_databank_range sample_env 1 65 True 1 empty_world) = Inr () \<and>
   map length (calls (snd (crawl_kensetsu_databank_range sample_env 1 65 True 1 empty_world))) =
     [32, 32, 1]"
proof -
  have 1: "(65::int) = 1 + 64" by simp
  have 2: "\<forall>n\<in>set [1..65]. good_record (crawl_and_extract_data sample_env (url_of n)) \<noteq> None"
    by (simp add: sample_fetch good_record_def)
  have 3: "\<forall>k\<ge>length (calls empty_world). \<not> write_fails sample_env k"
    by (simp add: sample_env_def)
  have 4: "(0::int) < 1" by simp
  let ?R = "successes (map (\<lambda>n. crawl_and_extract_data sample_env (url_of n)) [1..65])"
  note t = sixty_five_identifiers_three_flushes [OF 1 2 3 4, of True]
  have "length ?R = 65" using t by simp
  then have "map length [take 32 ?R, take 32 (drop 32 ?R), drop 64 ?R] = [32, 32, 1]"
    by simp
  then show ?thesis using t by (simp add: empty_world_def)
qed

subsection \<open>The failure list of a run\<close>

lemma upto_as_map: "[s..e] = map (\<lambda>j. s + int j) [0..<length [s..e]]"
  by (rule nth_equalityI) simp_all

lemma nth_submit_all:
  assumes "j < length [s..e]"
  shows "outcome (submit_all E s e ! j) = crawl_and_extract_data E (url_of (s + int j))"
proof -
  have "outcome (submit_all E s e ! j) = map outcome (submit_all E s e) ! j"
    using assms by (simp add: length_submit_all)
  also have "\<dots> = crawl_and_extract_data E (url_of ([s..e] ! j))"
    using assms by (simp only: outcome_submit_all nth_map)
  finally show ?thesis using assms by simp
qed

lemma error_links_with_executor:
  "error_links (fst (with_executor E s e a w)) =
     map url_of (filter (\<lambda>n. no_record (crawl_and_extract_data E (url_of n))) [s..e])"
proof -
  let ?n = "length [s..e]"
  have "error_links (fst (with_executor E s e a w)) =
        map (\<lambda>j. url_of (s + int j))
          (filter (\<lambda>j. no_record (outcome (submit_all E s e ! j))) [0..<?n])"
    using error_links_crawl_loop [of E s "e - s + 1" a 0 "submit_all E s e" initial_locals w]
    by (simp add: with_executor_def Let_def initial_locals_def length_submit_all)
  also have "filter (\<lambda>j. no_record (outcome (submit_all E s e ! j))) [0..<?n] =
             filter (\<lambda>j. no_record (crawl_and_extract_data E (url_of (s + int j)))) [0..<?n]"
    by (rule filter_cong) (simp_all add: nth_submit_all)
  also have "map (\<lambda>j. url_of (s + int j)) \<dots> =
             map url_of (filter (\<lambda>n. no_record (crawl_and_extract_data E (url_of n)))
               (map (\<lambda>j. s + int j) [0..<?n]))"
    by (simp add: filter_map comp_def)
  also have "map (\<lambda>j. s + int j) [0..<?n] = [s..e]"
    by (rule upto_as_map [symmetric])
  finally show ?thesis .
qed

text \<open>
  Claim C8. A future whose result is the empty dictionary is processed exactly as one
  whose result is \<open>None\<close>: in both cases the turn of the loop appends the URL of the
  identifier to \<open>error_links\<close> and leaves \<open>all_data\<close> as it is. At the end of the
  loop \<open>error_links\<close> holds the URLs of the identifiers whose fetch gave \<open>None\<close> or
  the empty dictionary, in ascending order.
\<close>

theorem empty_record_treated_as_failure:
  "process_future E s t a i (f\<lparr>outcome := Inr (Some [])\<rparr>) st =
     process_future E s t a i (f\<lparr>outcome := Inr None\<rparr>) st \<and>
   collect s i (Some []) l = l\<lparr>error_links := error_links l @ [url_of (s + int i)]\<rparr> \<and>
   collect s i None l = l\<lparr>error_links := error_links l @ [url_of (s + int i)]\<rparr> \<and>
   error_links (fst (with_executor E start_id end_id a w)) =
     map url_of
       (filter (\<lambda>n. no_record (crawl_and_extract_data E (url_of n))) [start_id..end_id])"
proof -
  have "process_future E s t a i (f\<lparr>outcome := Inr (Some [])\<rparr>) st =
        process_future E s t a i (f\<lparr>outcome := Inr None\<rparr>) st"
    by (cases st) (simp add: process_future_def try_body_def result_def collect_def)
  then show ?thesis
    using error_links_with_executor [of E start_id end_id a w]
    by (simp add: collect_def url_of_def)
qed

lemma blank_fetch: "crawl_and_extract_data blank_env u = Inr (Some [])"
  by (simp add: blank_env_def eval_defs)

text \<open>Two identifiers whose pages have no table, for C8.\<close>

theorem empty_record_treated_as_failure_witness:
  "crawl_and_extract_data blank_env (url_of 7) = Inr (Some []) \<and>
   error_links (fst (with_executor blank_env 7 8 True empty_world)) = [url_of 7, url_of 8] \<and>
   all_data (fst (with_executor blank_env 7 8 True empty_world)) = []"
proof -
  have "[7..8] = [7, 8::int]" by (simp add: upto.simps)
  then have "error_links (fst (with_executor blank_env 7 8 True empty_world)) = [url_of 7, url_of 8]"
    using empty_record_treated_as_failure
      [where E = blank_env and start_id = 7 and end_id = 8 and a = True and w = empty_world]
    by (simp add: blank_fetch no_record_def)
  moreover have "all_data (fst (with_executor blank_env 7 8 True empty_world)) = []"
    by code_simp
  ultimately show ?thesis by (simp add: blank_fetch)
qed

subsection \<open>A failed flush\<close>

text \<open>
  Claim C10. When the call of the sink in a turn of the loop raises, the turn leaves
  \<open>all_data\<close> as it was when the sink was called (the batch before the turn, with the
  dictionary of the turn appended). And for every call of the sink made inside the loop
  whose write fails there is a next call, inside the loop or the final flush, and the
  batch of the failed call is a prefix of the batch of that next call.
\<close>

theorem failed_flush_retains_batch:
  assumes "0 < num_threads"
  shows "(\<forall>t i f l w0 y x w1.
            outcome f = Inr y \<and> batch_size \<le> length (all_data (collect s i y l)) \<and>
            append_or_create_excel E (all_data (collect s i y l)) a (snd (result f w0)) =
              (Inl x, w1) \<longrightarrow>
            fst (process_future E s t a i f (l, w0)) = collect s i y l \<and>
            prefix (all_data l) (all_data (collect s i y l))) \<and>
         (\<forall>k. length (calls w) \<le> k \<and> k < length (calls (snd (with_executor E s e a w))) \<and>
              write_fails E k \<longrightarrow>
              Suc k < length (calls (snd (crawl_kensetsu_databank_range E s e a num_threads w))) \<and>
              calls (snd (crawl_kensetsu_databank_range E s e a num_threads w)) ! k =
                calls (snd (with_executor E s e a w)) ! k \<and>
              prefix (calls (snd (crawl_kensetsu_databank_range E s e a num_threads w)) ! k)
                (calls (snd (crawl_kensetsu_databank_range E s e a num_threads w)) ! Suc k))"
proof (rule conjI)
  show "\<forall>t i f l w0 y x w1.
            outcome f = Inr y \<and> batch_size \<le> length (all_data (collect s i y l)) \<and>
            append_or_create_excel E (all_data (collect s i y l)) a (snd (result f w0)) =
              (Inl x, w1) \<longrightarrow>
            fst (process_future E s t a i f (l, w0)) = collect s i y l \<and>
            prefix (all_data l) (all_data (collect s i y l))"
    using failed_flush_keeps_batch prefix_collect by auto
next
  let ?l = "fst (with_executor E s e a w)"
  let ?w = "snd (with_executor E s e a w)"
  let ?C = "calls (snd (crawl_kensetsu_databank_range E s e a num_threads w))"
  have r: "retained E (length (calls w)) (?l, ?w)"
    using retained_crawl_loop
      [OF retained_initial [where E = E and w = w and l = initial_locals],
        where s = s and t = "e - s + 1" and a = a and i = 0 and fs = "submit_all E s e"]
    by (simp add: with_executor_def Let_def)
  have C: "?C = calls ?w @ (if all_data ?l \<noteq> [] then [all_data ?l] else [])"
    by (rule final_flush_calls [OF assms])
  have "Suc k < length ?C \<and> ?C ! k = calls ?w ! k \<and> prefix (?C ! k) (?C ! Suc k)"
    if k: "length (calls w) \<le> k" "k < length (calls ?w)" "write_fails E k" for k
  proof -
    have b: "batch_size \<le> length (calls ?w ! k)"
      and p: "prefix (calls ?w ! k)
                (if Suc k < length (calls ?w) then calls ?w ! Suc k else all_data ?l)"
      using r k unfolding retained_def by auto
    have same: "?C ! k = calls ?w ! k" using k(2) by (simp add: C nth_append)
    show ?thesis
    proof (cases "Suc k < length (calls ?w)")
      case True
      then show ?thesis using p same by (simp add: C nth_append)
    next
      case False
      then have sk: "Suc k = length (calls ?w)" using k(2) by simp
      have pa: "prefix (calls ?w ! k) (all_data ?l)" using p False by simp
      have "calls ?w ! k \<noteq> []" using b by (auto simp: batch_size_def)
      then have ne: "all_data ?l \<noteq> []" using pa by auto
      then have "?C ! Suc k = all_data ?l" using sk by (simp add: C nth_append)
      then show ?thesis using pa same ne sk by (simp add: C)
    qed
  qed
  then show "\<forall>k. length (calls w) \<le> k \<and> k < length (calls ?w) \<and> write_fails E k \<longrightarrow>
              Suc k < length ?C \<and> ?C ! k = calls ?w ! k \<and> prefix (?C ! k) (?C ! Suc k)"
    by blast
qed

text \<open>32 identifiers with \<open>flaky_env\<close>, for C10.\<close>

theorem failed_flush_retains_batch_witness:
  "write_fails flaky_env 0 \<and>
   0 < length (calls (snd (with_executor flaky_env 1 32 True empty_world))) \<and>
   Suc 0 < length (calls (snd (crawl_kensetsu_databank_range flaky_env 1 32 True 1 empty_world))) \<and>
   prefix (calls (snd (crawl_kensetsu_databank_range flaky_env 1 32 True 1 empty_world)) ! 0)
     (calls (snd (crawl_kensetsu_databank_range flaky_env 1 32 True 1 empty_world)) ! Suc 0)"
proof -
  have 1: "write_fails flaky_env 0" by (simp add: flaky_env_def)
  have 2: "0 < length (calls (snd (with_executor flaky_env 1 32 True empty_world)))"
    by code_simp
  have 3: "length (calls empty_world) \<le> 0" by (simp add: empty_world_def)
  have 4: "(0::int) < 1" by simp
  show ?thesis
    using failed_flush_retains_batch
      [OF 4, where s = 1 and e = 32 and E = flaky_env and a = True and w = empty_world] 1 2 3
    by blast
qed

subsection \<open>Order and completion times\<close>

lemma crawl_and_extract_data_env:
  "crawl_and_extract_data (E\<lparr>completes_at := t'\<rparr>) url = crawl_and_extract_data E url"
  by (simp add: crawl_and_extract_data_def)

lemma print_clock: "print x (w\<lparr>clock := c\<rparr>) = (print x w)\<lparr>clock := c\<rparr>"
  by (simp add: print_def)

lemma with_executor_clock:
  "\<exists>c. with_executor (E\<lparr>completes_at := t'\<rparr>) s e a w =
     (fst (with_executor E s e a w), (snd (with_executor E s e a w))\<lparr>clock := c\<rparr>)"
proof -
  have 1: "write_fails (E\<lparr>completes_at := t'\<rparr>) = write_fails E" by simp
  have 2: "map outcome (submit_all (E\<lparr>completes_at := t'\<rparr>) s e) = map outcome (submit_all E s e)"
    by (simp add: outcome_submit_all crawl_and_extract_data_env)
  from crawl_loop_clock [OF 1 2, where s = s and t = "e - s + 1" and a = a and i = 0
      and l = initial_locals and w = w and c = "clock w"]
  show ?thesis by (simp add: with_executor_def Let_def)
qed

lemma run_clock:
  "\<exists>c. crawl_kensetsu_databank_range (E\<lparr>completes_at := t'\<rparr>) s e a num_threads w =
     (fst (crawl_kensetsu_databank_range E s e a num_threads w),
      (snd (crawl_kensetsu_databank_range E s e a num_threads w))\<lparr>clock := c\<rparr>)"
proof (cases "num_threads \<le> 0")
  case True
  then show ?thesis
    by (intro exI [where x = "clock w"]) (simp add: crawl_kensetsu_databank_range_def)
next
  case False
  obtain l w1 where we: "with_executor E s e a w = (l, w1)"
    by (cases "with_executor E s e a w")
  obtain c where "with_executor (E\<lparr>completes_at := t'\<rparr>) s e a w =
      (fst (with_executor E s e a w), (snd (with_executor E s e a w))\<lparr>clock := c\<rparr>)"
    using with_executor_clock by blast
  then have we': "with_executor (E\<lparr>completes_at := t'\<rparr>) s e a w = (l, w1\<lparr>clock := c\<rparr>)"
    using we by simp
  have ap: "append_or_create_excel (E\<lparr>completes_at := t'\<rparr>) d a (w1\<lparr>clock := c\<rparr>) =
        (fst (append_or_create_excel E d a w1),
         (snd (append_or_create_excel E d a w1))\<lparr>clock := c\<rparr>)" for d
  proof -
    have "append_or_create_excel (E\<lparr>completes_at := t'\<rparr>) d a x =
          append_or_create_excel E d a x" for x
      by (rule append_or_create_excel_env) simp
    then show "append_or_create_excel (E\<lparr>completes_at := t'\<rparr>) d a (w1\<lparr>clock := c\<rparr>) =
        (fst (append_or_create_excel E d a w1),
         (snd (append_or_create_excel E d a w1))\<lparr>clock := c\<rparr>)"
      by (simp only: append_or_create_excel_clock)
  qed
  show ?thesis
  proof (cases "all_data l = []")
    case True
    then show ?thesis using False we we'
      by (intro exI [where x = c]) (simp add: crawl_kensetsu_databank_range_def print_clock)
  next
    case ne: False
    obtain r w2 where p: "append_or_create_excel E (all_data l) a w1 = (r, w2)"
      by (cases "append_or_create_excel E (all_data l) a w1")
    then show ?thesis using False we we' ne ap [of "all_data l"]
      by (intro exI [where x = c], cases r)
         (simp_all add: crawl_kensetsu_databank_range_def print_clock)
  qed
qed

lemma run_slices:
  assumes "0 < num_threads"
  shows "\<exists>cs. calls (snd (crawl_kensetsu_databank_range E s e a num_threads w)) = calls w @ cs \<and>
     (\<forall>c\<in>set cs. \<exists>k. c = take (length c)
        (drop k (successes (map (\<lambda>n. crawl_and_extract_data E (url_of n)) [s..e])))) \<and>
     ((\<forall>k\<ge>length (calls w). \<not> write_fails E k) \<longrightarrow>
        concat cs = successes (map (\<lambda>n. crawl_and_extract_data E (url_of n)) [s..e]))"
proof -
  let ?R = "successes (map (\<lambda>n. crawl_and_extract_data E (url_of n)) [s..e])"
  let ?l = "fst (with_executor E s e a w)"
  let ?w = "snd (with_executor E s e a w)"
  let ?last = "if all_data ?l \<noteq> [] then [all_data ?l] else []"
  obtain cs k where cs: "calls ?w = calls w @ cs"
    and sl: "\<forall>c\<in>set cs. \<exists>k. c = take (length c) (drop k ?R)"
    and ad: "all_data ?l = drop k ?R"
    using with_executor_slices [of E s e a w] by blast
  have 1: "calls (snd (crawl_kensetsu_databank_range E s e a num_threads w)) =
           calls w @ (cs @ ?last)"
    using final_flush_calls [OF assms, of E s e a w] cs by simp
  have "all_data ?l = take (length (all_data ?l)) (drop k ?R)" using ad by simp
  then have 2: "\<forall>c\<in>set (cs @ ?last). \<exists>k. c = take (length c) (drop k ?R)"
    using sl by auto
  have 3: "concat (cs @ ?last) = ?R" if nf: "\<forall>k\<ge>length (calls w). \<not> write_fails E k"
  proof -
    obtain cs' where c': "calls ?w = calls w @ cs'" and cc: "concat cs' @ all_data ?l = ?R"
      using with_executor_no_failure [OF nf, of s e a] by blast
    have "cs' = cs" using cs c' by simp
    then show ?thesis using cc by (cases "all_data ?l = []") auto
  qed
  show ?thesis using 1 2 3 by blast
qed

lemma waits_for_earlier_futures:
  assumes "j \<le> length [s..e]" and "i < j"
  shows "completes_at E i \<le>
     clock (snd (crawl_loop E s t a 0 (take j (submit_all E s e)) (l, w)))"
proof -
  have "map done_at (take j (submit_all E s e)) = take j (map done_at (submit_all E s e))"
    by (simp only: take_map)
  also have "\<dots> = map (completes_at E) (take j [0..<length [s..e]])"
    by (simp only: done_at_submit_all take_map)
  also have "take j [0..<length [s..e]] = [0..<j]"
    using assms(1) by (simp add: take_upt)
  finally have "map done_at (take j (submit_all E s e)) = map (completes_at E) [0..<j]" .
  then have "completes_at E i \<in> set (map done_at (take j (submit_all E s e)))"
    using assms(2) by simp
  then show ?thesis
    using fold_max_ge [of "clock w" "map done_at (take j (submit_all E s e))"]
    by (simp only: clock_crawl_loop)
qed

lemma with_executor_split:
  assumes "j \<le> length [s..e]"
  shows "with_executor E s e a w =
     crawl_loop E s (e - s + 1) a j (drop j (submit_all E s e))
       (crawl_loop E s (e - s + 1) a 0 (take j (submit_all E s e)) (initial_locals, w))"
proof -
  have "length (take j (submit_all E s e)) = j"
    using assms by (simp add: length_submit_all)
  then show ?thesis
    using crawl_loop_append [of E s "e - s + 1" a 0 "take j (submit_all E s e)"
        "drop j (submit_all E s e)" "(initial_locals, w)"]
    by (simp add: with_executor_def Let_def)
qed

text \<open>
  Claim C3. For a worker count above 1: the futures are in the order of the
  identifiers; the loop processes them in this order, and the state in which it comes
  to the future at position \<open>j\<close> is the state after the futures before \<open>j\<close>, at a
  time at which all of these have completed; every batch passed to the sink is a run of
  consecutive elements of the dictionaries of the successful fetches in ascending
  order of identifier, and when no write fails the batches put end to end are that
  list; and with other completion times the run differs in the clock only.
\<close>

theorem results_consumed_in_submission_order:
  assumes "1 < num_threads"
  shows "map outcome (submit_all E s e) =
           map (\<lambda>n. crawl_and_extract_data E (url_of n)) [s..e] \<and>
         (\<forall>j\<le>length [s..e].
            with_executor E s e a w =
              crawl_loop E s (e - s + 1) a j (drop j (submit_all E s e))
                (crawl_loop E s (e - s + 1) a 0 (take j (submit_all E s e)) (initial_locals, w)) \<and>
            (\<forall>i<j. completes_at E i \<le>
               clock (snd (crawl_loop E s (e - s + 1) a 0 (take j (submit_all E s e))
                             (initial_locals, w))))) \<and>
         (\<exists>cs. calls (snd (crawl_kensetsu_databank_range E s e a num_threads w)) = calls w @ cs \<and>
            (\<forall>c\<in>set cs. \<exists>k. c = take (length c)
               (drop k (successes (map (\<lambda>n. crawl_and_extract_data E (url_of n)) [s..e])))) \<and>
            ((\<forall>k\<ge>length (calls w). \<not> write_fails E k) \<longrightarrow>
               concat cs = successes (map (\<lambda>n. crawl_and_extract_data E (url_of n)) [s..e]))) \<and>
         (\<forall>t'. \<exists>c. crawl_kensetsu_databank_range (E\<lparr>completes_at := t'\<rparr>) s e a num_threads w =
            (fst (crawl_kensetsu_databank_range E s e a num_threads w),
             (snd (crawl_kensetsu_databank_range E s e a num_threads w))\<lparr>clock := c\<rparr>))"
proof (intro conjI allI impI)
  show "map outcome (submit_all E s e) =
          map (\<lambda>n. crawl_and_extract_data E (url_of n)) [s..e]"
    by (rule outcome_submit_all)
next
  fix j assume "j \<le> length [s..e]"
  then show "with_executor E s e a w =
      crawl_loop E s (e - s + 1) a j (drop j (submit_all E s e))
        (crawl_loop E s (e - s + 1) a 0 (take j (submit_all E s e)) (initial_locals, w))"
    by (rule with_executor_split)
next
  fix j i assume "j \<le> length [s..e]" and "i < j"
  then show "completes_at E i \<le>
      clock (snd (crawl_loop E s (e - s + 1) a 0 (take j (submit_all E s e))
                    (initial_locals, w)))"
    by (rule waits_for_earlier_futures)
next
  have "0 < num_threads" using assms by simp
  then show "\<exists>cs. calls (snd (crawl_kensetsu_databank_range E s e a num_threads w)) = calls w @ cs \<and>
            (\<forall>c\<in>set cs. \<exists>k. c = take (length c)
               (drop k (successes (map (\<lambda>n. crawl_and_extract_data E (url_of n)) [s..e])))) \<and>
            ((\<forall>k\<ge>length (calls w). \<not> write_fails E k) \<longrightarrow>
               concat cs = successes (map (\<lambda>n. crawl_and_extract_data E (url_of n)) [s..e]))"
    by (rule run_slices)
next
  fix t'
  show "\<exists>c. crawl_kensetsu_databank_range (E\<lparr>completes_at := t'\<rparr>) s e a num_threads w =
            (fst (crawl_kensetsu_databank_range E s e a num_threads w),
             (snd (crawl_kensetsu_databank_range E s e a num_threads w))\<lparr>clock := c\<rparr>)"
    by (rule run_clock)
qed

text \<open>
  Three identifiers on two workers, the later tasks completing sooner, for C3.
\<close>

theorem results_consumed_in_submission_order_witness:
  "(1::int) < 2 \<and>
   completes_at staggered_env 1 < completes_at staggered_env 0 \<and>
   concat (calls (snd (crawl_kensetsu_databank_range staggered_env 1 3 True 2 empty_world))) =
     [sample_record (url_of 1), sample_record (url_of 2), sample_record (url_of 3)]"
proof -
  have 1: "(1::int) < 2" by simp
  have f: "crawl_and_extract_data staggered_env u = Inr (Some (sample_record u))" for u
    by (simp add: staggered_env_def sample_page_def sample_table_def sample_record_def eval_defs)
  have u: "[1..3] = [1, 2, 3::int]" by (simp add: upto.simps)
  have R: "successes (map (\<lambda>n. crawl_and_extract_data staggered_env (url_of n)) [1..3]) =
           [sample_record (url_of 1), sample_record (url_of 2), sample_record (url_of 3)]"
    unfolding u by (simp add: f successes_def good_record_def sample_record_def)
  have nf: "\<forall>k\<ge>length (calls empty_world). \<not> write_fails staggered_env k"
    by (simp add: staggered_env_def)
  obtain cs where "calls (snd (crawl_kensetsu_databank_range staggered_env 1 3 True 2 empty_world)) =
      calls empty_world @ cs"
    and "concat cs = successes (map (\<lambda>n. crawl_and_extract_data staggered_env (url_of n)) [1..3])"
    using results_consumed_in_submission_order
      [OF 1, where E = staggered_env and s = 1 and e = 3 and a = True and w = empty_world] nf
    by blast
  then show ?thesis using R by (simp add: empty_world_def staggered_env_def)
qed
end
